theory Spec2Isabelle
  imports Main "HOL-Library.Word" "HOL-Library.Signed_Division" "HOL-Library.Multiset"
    "HOL-Library.Monad_Syntax"
begin

section \<open>Common conventions\<close>

text \<open>
  The library \<^verbatim>\<open>ds\<close> consists of four containers: \<^verbatim>\<open>DynamicArray\<close>, \<^verbatim>\<open>CircularArray\<close>,
  \<^verbatim>\<open>SinglyLinkedList\<close> and \<^verbatim>\<open>DoublyLinkedList\<close>. Each class is embedded as a record of
  its data members; each member function becomes a HOL function on that record.

  \<^item> \<^verbatim>\<open>std::size_t\<close> and \<^verbatim>\<open>std::ptrdiff_t\<close> of the circular array are 64-bit words.
    Conversions between the two keep the bits; \<^verbatim>\<open>ptrdiff_t\<close> is read with \<open>sint\<close>.
  \<^item> A buffer obtained from the allocator is a list of slots. A slot is \<open>None\<close> while no
    object has been constructed in it (or after its object has been destroyed) and
    \<open>Some v\<close> while it holds the live object \<open>v\<close>.
  \<^item> A mutating member function returns the exception it throws (\<open>None\<close> when it returns
    normally) together with the object as the call leaves it.
  \<^item> An access outside the allocated buffer or through a null pointer is undefined
    behaviour in C++; the model reports it as \<open>BufferOverrun\<close> or \<open>NullDereference\<close>.
\<close>

datatype error =
    IndexOutOfRange     \<comment> \<open>\<^verbatim>\<open>std::out_of_range("Index out of range")\<close>\<close>
  | CapacityExceeded    \<comment> \<open>\<^verbatim>\<open>std::runtime_error("CircularArray is full")\<close>\<close>
  | Underflow           \<comment> \<open>\<^verbatim>\<open>std::runtime_error("CircularArray is empty")\<close>, \<^verbatim>\<open>std::out_of_range("List is empty")\<close>\<close>
  | BadAlloc            \<comment> \<open>the allocator refuses the request\<close>
  | BufferOverrun       \<comment> \<open>undefined behaviour: access outside the allocated buffer\<close>
  | NullDereference     \<comment> \<open>undefined behaviour: access through a null or dangling pointer\<close>

text \<open>Running member-function calls one after the other; the first exception ends the run.\<close>

fun calls :: "('s \<Rightarrow> error option \<times> 's) list \<Rightarrow> 's \<Rightarrow> error option \<times> 's" where
  "calls [] s = (None, s)"
| "calls (f # fs) s = (case f s of (None, s') \<Rightarrow> calls fs s' | (Some e, s') \<Rightarrow> (Some e, s'))"

section \<open>CircularArray\<close>

type_synonym size_type = "64 word"
type_synonym difference_type = "64 word"

record 'a CircularArray =
  c_buffer :: "'a option list"
  c_head :: size_type
  c_tail :: size_type
  c_capacity :: size_type
  c_size :: size_type

text \<open>
  \<^verbatim>\<open>std::allocator_traits<Allocator>::allocate(alloc_, n)\<close>: raw storage for \<open>n\<close> objects.
  No array object can have more than \<^verbatim>\<open>PTRDIFF_MAX\<close> elements, so a larger request fails.
\<close>

definition PTRDIFF_MAX :: size_type where
  "PTRDIFF_MAX = 9223372036854775807"

definition allocate :: "size_type \<Rightarrow> error + 'a option list" where
  "allocate n = (if n \<le> PTRDIFF_MAX then Inr (replicate (unat n) None) else Inl BadAlloc)"

text \<open>\<^verbatim>\<open>construct(alloc_, buffer_ + i, value)\<close> and \<^verbatim>\<open>destroy(alloc_, buffer_ + i)\<close>.\<close>

definition construct :: "'a option list \<Rightarrow> size_type \<Rightarrow> 'a \<Rightarrow> error + 'a option list" where
  "construct buf i v = (if unat i < length buf then Inr (buf[unat i := Some v]) else Inl BufferOverrun)"

definition destroy :: "'a option list \<Rightarrow> size_type \<Rightarrow> error + 'a option list" where
  "destroy buf i = (if unat i < length buf then Inr (buf[unat i := None]) else Inl BufferOverrun)"

text \<open>
  \<^verbatim>\<open>normalize_index(difference_type index)\<close> reads only \<^verbatim>\<open>capacity_\<close>. The addition
  \<^verbatim>\<open>index += capacity_\<close> and the remainder \<^verbatim>\<open>index % capacity_\<close> are both computed in
  \<^verbatim>\<open>size_t\<close> (the unsigned operand wins), hence word addition and unsigned \<open>mod\<close>.
\<close>

definition normalize_index :: "size_type \<Rightarrow> difference_type \<Rightarrow> size_type" where
  "normalize_index capacity index =
     (let index' = (if index <s 0 then index + capacity else index)
      in index' mod capacity)"

definition ca_empty :: "'a CircularArray \<Rightarrow> bool" where
  "ca_empty c = (c_size c = 0)"

definition ca_full :: "'a CircularArray \<Rightarrow> bool" where
  "ca_full c = (c_size c = c_capacity c)"

text \<open>The constructor \<^verbatim>\<open>CircularArray(capacity)\<close>.\<close>

definition ca_new :: "size_type \<Rightarrow> error + 'a CircularArray" where
  "ca_new capacity =
     (case allocate capacity of
        Inl e \<Rightarrow> Inl e
      | Inr buf \<Rightarrow> Inr \<lparr>c_buffer = buf, c_head = 0, c_tail = 0,
                         c_capacity = capacity, c_size = 0\<rparr>)"

text \<open>The fill constructor \<^verbatim>\<open>CircularArray(count, value)\<close>.\<close>

definition ca_fill :: "size_type \<Rightarrow> 'a \<Rightarrow> error + 'a CircularArray" where
  "ca_fill cnt v =
     (case allocate cnt of
        Inl e \<Rightarrow> Inl e
      | Inr buf \<Rightarrow> Inr \<lparr>c_buffer = fold (\<lambda>i b. b[i := Some v]) [0..<unat cnt] buf,
                         c_head = 0, c_tail = cnt,
                         c_capacity = cnt, c_size = cnt\<rparr>)"

text \<open>
  \<^verbatim>\<open>copy_elements(other)\<close>: slot \<open>i\<close> of the new buffer receives a copy of
  \<^verbatim>\<open>other.buffer_[src_pos]\<close>, and \<^verbatim>\<open>src_pos\<close> advances modulo \<^verbatim>\<open>other.capacity_\<close>.
\<close>

fun copy_loop :: "'a option list \<Rightarrow> size_type \<Rightarrow> nat list \<Rightarrow> 'a option list \<Rightarrow> size_type
    \<Rightarrow> error + 'a option list" where
  "copy_loop obuf ocap [] buf src_pos = Inr buf"
| "copy_loop obuf ocap (i # is) buf src_pos =
     (if i < length buf \<and> unat src_pos < length obuf
      then copy_loop obuf ocap is (buf[i := obuf ! unat src_pos]) ((src_pos + 1) mod ocap)
      else Inl BufferOverrun)"

definition copy_elements :: "'a option list \<Rightarrow> 'a CircularArray \<Rightarrow> error + 'a option list" where
  "copy_elements buf other =
     copy_loop (c_buffer other) (c_capacity other) [0..<unat (c_size other)] buf (c_head other)"

text \<open>The copy constructor \<^verbatim>\<open>CircularArray(const CircularArray& other)\<close>.\<close>

definition ca_copy :: "'a CircularArray \<Rightarrow> error + 'a CircularArray" where
  "ca_copy other =
     (case allocate (c_capacity other) of
        Inl e \<Rightarrow> Inl e
      | Inr buf \<Rightarrow>
          (case copy_elements buf other of
             Inl e \<Rightarrow> Inl e
           | Inr buf' \<Rightarrow> Inr \<lparr>c_buffer = buf', c_head = 0, c_tail = c_size other,
                               c_capacity = c_capacity other, c_size = c_size other\<rparr>))"

text \<open>\<^verbatim>\<open>at(pos)\<close>: the slot the returned reference designates.\<close>

definition ca_at :: "'a CircularArray \<Rightarrow> size_type \<Rightarrow> error + 'a option" where
  "ca_at c pos =
     (if pos \<ge> c_size c then Inl IndexOutOfRange
      else let i = unat (normalize_index (c_capacity c) (c_head c + pos))
           in if i < length (c_buffer c) then Inr (c_buffer c ! i) else Inl BufferOverrun)"

definition ca_push_front :: "'a \<Rightarrow> 'a CircularArray \<Rightarrow> error option \<times> 'a CircularArray" where
  "ca_push_front v c =
     (if ca_full c then (Some CapacityExceeded, c)
      else let h = normalize_index (c_capacity c) (c_head c - 1)
           in case construct (c_buffer c) h v of
                Inl e \<Rightarrow> (Some e, c)
              | Inr buf \<Rightarrow> (None, c\<lparr>c_buffer := buf, c_head := h, c_size := c_size c + 1\<rparr>))"

definition ca_push_back :: "'a \<Rightarrow> 'a CircularArray \<Rightarrow> error option \<times> 'a CircularArray" where
  "ca_push_back v c =
     (if ca_full c then (Some CapacityExceeded, c)
      else case construct (c_buffer c) (c_tail c) v of
             Inl e \<Rightarrow> (Some e, c)
           | Inr buf \<Rightarrow> (None, c\<lparr>c_buffer := buf,
                                  c_tail := normalize_index (c_capacity c) (c_tail c + 1),
                                  c_size := c_size c + 1\<rparr>))"

definition ca_pop_front :: "'a CircularArray \<Rightarrow> error option \<times> 'a CircularArray" where
  "ca_pop_front c =
     (if ca_empty c then (Some Underflow, c)
      else case destroy (c_buffer c) (c_head c) of
             Inl e \<Rightarrow> (Some e, c)
           | Inr buf \<Rightarrow> (None, c\<lparr>c_buffer := buf,
                                  c_head := normalize_index (c_capacity c) (c_head c + 1),
                                  c_size := c_size c - 1\<rparr>))"

definition ca_pop_back :: "'a CircularArray \<Rightarrow> error option \<times> 'a CircularArray" where
  "ca_pop_back c =
     (if ca_empty c then (Some Underflow, c)
      else let t = normalize_index (c_capacity c) (c_tail c - 1)
           in case destroy (c_buffer c) t of
                Inl e \<Rightarrow> (Some e, c)
              | Inr buf \<Rightarrow> (None, c\<lparr>c_buffer := buf, c_tail := t, c_size := c_size c - 1\<rparr>))"

text \<open>
  \<^verbatim>\<open>rotate(n)\<close>. \<^verbatim>\<open>n % static_cast<difference_type>(size_)\<close> is the signed remainder
  that truncates towards zero (\<open>smod\<close>); \<^verbatim>\<open>n += size_\<close> and \<^verbatim>\<open>head_ + n\<close> are word additions.
\<close>

definition ca_rotate :: "difference_type \<Rightarrow> 'a CircularArray \<Rightarrow> error option \<times> 'a CircularArray" where
  "ca_rotate n c =
     (if ca_empty c then (None, c)
      else let n1 = (word_of_int (sint n smod sint (c_size c)) :: difference_type);
               n2 = (if n1 <s 0 then n1 + c_size c else n1)
           in (None, c\<lparr>c_head := normalize_index (c_capacity c) (c_head c + n2),
                        c_tail := normalize_index (c_capacity c) (c_tail c + n2)\<rparr>))"

text \<open>The logical sequence: what \<^verbatim>\<open>at(0)\<close>, ..., \<^verbatim>\<open>at(size-1)\<close> designate.\<close>

definition ca_contents :: "'a CircularArray \<Rightarrow> (error + 'a option) list" where
  "ca_contents c = map (\<lambda>i. ca_at c (word_of_nat i)) [0..<unat (c_size c)]"

subsection \<open>Iterators of the circular array\<close>

record 'a CircularIterator =
  it_buffer :: "'a option list"
  it_position :: size_type
  it_capacity :: size_type

definition ca_begin :: "'a CircularArray \<Rightarrow> 'a CircularIterator" where
  "ca_begin c = \<lparr>it_buffer = c_buffer c, it_position = c_head c, it_capacity = c_capacity c\<rparr>"

definition ca_end :: "'a CircularArray \<Rightarrow> 'a CircularIterator" where
  "ca_end c = \<lparr>it_buffer = c_buffer c, it_position = c_tail c, it_capacity = c_capacity c\<rparr>"

text \<open>\<^verbatim>\<open>operator++\<close> and \<^verbatim>\<open>operator*\<close> of \<^verbatim>\<open>CircularIterator\<close>.\<close>

definition it_incr :: "'a CircularIterator \<Rightarrow> 'a CircularIterator" where
  "it_incr it = it\<lparr>it_position := (it_position it + 1) mod it_capacity it\<rparr>"

definition it_deref :: "'a CircularIterator \<Rightarrow> 'a option" where
  "it_deref it = (if unat (it_position it) < length (it_buffer it)
                  then it_buffer it ! unat (it_position it) else None)"

text \<open>
  Modelled from the spec: \<^verbatim>\<open>operator==\<close> of \<^verbatim>\<open>CircularIterator\<close>, which \<^verbatim>\<open>CircularArray.h\<close>
  declares and no file under \<^verbatim>\<open>src/\<close> defines. By the spec an iterator over the ring tracks
  the buffer pointer, the position and the capacity, and \<^verbatim>\<open>begin()\<close> and \<^verbatim>\<open>end()\<close> are equal
  when they sit at the same buffer position. The buffer pointer has no counterpart in this
  model: the comparison is used on two iterators of one array only, whose buffer pointers
  agree, so it is the comparison of the positions.
\<close>

definition it_eq :: "'a CircularIterator \<Rightarrow> 'a CircularIterator \<Rightarrow> bool" where
  "it_eq a b = (it_position a = it_position b)"

text \<open>
  \<open>ca_reachable_from c0 c\<close>: the array \<open>c\<close> is reached from the array \<open>c0\<close> by push and pop
  operations that return normally. The starting array \<open>c0\<close> is arbitrary, whichever
  constructor built it.
\<close>

inductive ca_reachable_from :: "'a CircularArray \<Rightarrow> 'a CircularArray \<Rightarrow> bool"
  for c0 :: "'a CircularArray" where
  ca_reach_start: "ca_reachable_from c0 c0"
| ca_reach_push_front:
    "ca_reachable_from c0 c \<Longrightarrow> ca_push_front v c = (None, c') \<Longrightarrow> ca_reachable_from c0 c'"
| ca_reach_push_back:
    "ca_reachable_from c0 c \<Longrightarrow> ca_push_back v c = (None, c') \<Longrightarrow> ca_reachable_from c0 c'"
| ca_reach_pop_front:
    "ca_reachable_from c0 c \<Longrightarrow> ca_pop_front c = (None, c') \<Longrightarrow> ca_reachable_from c0 c'"
| ca_reach_pop_back:
    "ca_reachable_from c0 c \<Longrightarrow> ca_pop_back c = (None, c') \<Longrightarrow> ca_reachable_from c0 c'"

text \<open>
  The invariant that \<^verbatim>\<open>CircularArray(capacity)\<close> establishes and that the push and pop
  operations keep: the indices stay below the capacity and the tail is the head advanced
  by the size, modulo the capacity. The fill constructor and the copy of a full array do
  not establish it (their tail is the capacity).
\<close>

definition ca_inv :: "'a CircularArray \<Rightarrow> bool" where
  "ca_inv c = (c_capacity c \<le> PTRDIFF_MAX \<and> c_size c \<le> c_capacity c \<and>
     (if c_capacity c = 0 then c_head c = c_tail c
      else c_head c < c_capacity c \<and> c_tail c < c_capacity c \<and>
           uint (c_tail c) = (uint (c_head c) + uint (c_size c)) mod uint (c_capacity c)))"

section \<open>DynamicArray\<close>

text \<open>
  No operation of the dynamic array relies on wrap-around of \<^verbatim>\<open>size_t\<close>, so its sizes
  are natural numbers. \<^verbatim>\<open>data_\<close> is the buffer of \<^verbatim>\<open>capacity_\<close> slots (empty for the
  null pointer of an array without storage).
\<close>

record 'a DynamicArray =
  d_data :: "'a option list"
  d_size :: nat
  d_capacity :: nat

definition INITIAL_CAPACITY :: nat where
  "INITIAL_CAPACITY = 16"

text \<open>
  \<^verbatim>\<open>GROWTH_FACTOR\<close> is the \<^verbatim>\<open>float\<close> constant \<^verbatim>\<open>1.5f\<close>, so \<^verbatim>\<open>capacity_ * GROWTH_FACTOR\<close>
  is computed in IEEE single precision: \<^verbatim>\<open>capacity_\<close> is first converted to \<^verbatim>\<open>float\<close> and
  the product is rounded to \<^verbatim>\<open>float\<close> again. A \<^verbatim>\<open>float\<close> has a significand of 24 bits;
  \<open>float_round n\<close> is the nearest natural number with at most 24 significant bits, ties
  going to the even significand. \<open>float_excess n\<close> counts the low bits of \<open>n\<close> that
  do not fit.
\<close>

function float_excess :: "nat \<Rightarrow> nat" where
  "float_excess n = (if n < 2 ^ 24 then 0 else Suc (float_excess (n div 2)))"
  by pat_completeness auto
termination
  by (relation "measure id") auto

definition float_round :: "nat \<Rightarrow> nat" where
  "float_round n =
     (let e = float_excess n; q = n div 2 ^ e; r = n mod 2 ^ e
      in if 2 * r < 2 ^ e then q * 2 ^ e
         else if 2 ^ e < 2 * r then (q + 1) * 2 ^ e
         else if even q then q * 2 ^ e else (q + 1) * 2 ^ e)"

text \<open>
  \<^verbatim>\<open>static_cast<size_type>(capacity_ * GROWTH_FACTOR)\<close>. The exact product of the float
  \<open>x\<close> and 1.5 is \<open>3 * x / 2\<close>; rounding to 24 significant bits commutes with doubling,
  so the rounded product is \<open>float_round (3 * x) / 2\<close>, and the cast truncates it.
\<close>

definition scaled_capacity :: "nat \<Rightarrow> nat" where
  "scaled_capacity capacity = float_round (3 * float_round capacity) div 2"

definition calculate_growth :: "'a DynamicArray \<Rightarrow> nat \<Rightarrow> nat" where
  "calculate_growth d new_size =
     (let new_capacity = scaled_capacity (d_capacity d)
      in max new_capacity (max INITIAL_CAPACITY new_size))"

text \<open>
  \<^verbatim>\<open>reallocate(new_capacity)\<close>: a fresh buffer receives the live elements one by one,
  the old buffer is released.
\<close>

definition reallocate :: "nat \<Rightarrow> 'a DynamicArray \<Rightarrow> 'a DynamicArray" where
  "reallocate new_capacity d =
     d\<lparr>d_data := fold (\<lambda>i b. b[i := d_data d ! i]) [0..<d_size d] (replicate new_capacity None),
       d_capacity := new_capacity\<rparr>"

definition da_new :: "'a DynamicArray" where
  "da_new = \<lparr>d_data = [], d_size = 0, d_capacity = 0\<rparr>"



definition da_pop_back :: "'a DynamicArray \<Rightarrow> error option \<times> 'a DynamicArray" where
  "da_pop_back d =
     (if d_size d > 0
      then (None, d\<lparr>d_size := d_size d - 1, d_data := (d_data d)[d_size d - 1 := None]\<rparr>)
      else (None, d))"


section \<open>Linked lists\<close>

text \<open>
  The nodes of both lists live in a heap: a partial map from addresses to nodes. A
  pointer is an optional address, \<open>None\<close> being \<^verbatim>\<open>nullptr\<close>. The functions on lists
  return \<open>None\<close> when the call has no defined result: it reads or writes through a null
  or dangling pointer, or it never returns.

  \<^verbatim>\<open>SinglyLinkedList::Node\<close> has the members \<^verbatim>\<open>data\<close> and \<^verbatim>\<open>next\<close>;
  \<^verbatim>\<open>DoublyLinkedList::Node\<close> has \<^verbatim>\<open>data\<close>, \<^verbatim>\<open>prev\<close> and \<^verbatim>\<open>next\<close>. The second record
  extends the first, so that what only follows \<^verbatim>\<open>next\<close> is written once for both.
\<close>

type_synonym addr = nat

record 'a SNode =
  n_data :: 'a
  n_next :: "addr option"

record 'a DNode = "'a SNode" +
  n_prev :: "addr option"

record SinglyLinkedList =
  sl_head :: "addr option"
  sl_tail :: "addr option"
  sl_size :: nat

record DoublyLinkedList =
  dl_head :: "addr option"
  dl_tail :: "addr option"
  dl_size :: nat

text \<open>Reading through a pointer (\<^verbatim>\<open>p->...\<close>) and writing through it (\<^verbatim>\<open>p->member = v\<close>).\<close>

definition deref :: "(addr \<rightharpoonup> 'n) \<Rightarrow> addr option \<Rightarrow> 'n option" where
  "deref h p = (case p of None \<Rightarrow> None | Some a \<Rightarrow> h a)"

definition update_node :: "(addr \<rightharpoonup> 'n) \<Rightarrow> addr option \<Rightarrow> ('n \<Rightarrow> 'n) \<Rightarrow> (addr \<rightharpoonup> 'n) option" where
  "update_node h p f =
     (case p of None \<Rightarrow> None
      | Some a \<Rightarrow> (case h a of None \<Rightarrow> None | Some n \<Rightarrow> Some (h(a \<mapsto> f n))))"

subsection \<open>What a heap holds\<close>

text \<open>
  \<open>path link h p as q\<close>: following the pointer \<open>link\<close> from \<open>p\<close> visits exactly the live
  nodes \<open>as\<close>, in this order, and then arrives at \<open>q\<close>.
\<close>

fun path :: "('n \<Rightarrow> addr option) \<Rightarrow> (addr \<rightharpoonup> 'n) \<Rightarrow> addr option \<Rightarrow> addr list \<Rightarrow> addr option \<Rightarrow> bool" where
  "path link h p [] q = (p = q)"
| "path link h p (a # as) q =
     (p = Some a \<and> (case h a of None \<Rightarrow> False | Some n \<Rightarrow> path link h (link n) as q))"

text \<open>The elements stored in the nodes \<open>as\<close>.\<close>

definition elems :: "(addr \<rightharpoonup> ('a, 'm) SNode_scheme) \<Rightarrow> addr list \<Rightarrow> 'a list" where
  "elems h as = map (\<lambda>a. n_data (the (h a))) as"

text \<open>
  A well-formed singly linked list with the nodes \<open>as\<close>: \<^verbatim>\<open>head_\<close> leads through \<open>as\<close> to
  null, \<^verbatim>\<open>tail_\<close> is the last node (null for the empty list), \<^verbatim>\<open>size_\<close> is their number.
\<close>

definition sll :: "(addr \<rightharpoonup> 'a SNode) \<Rightarrow> SinglyLinkedList \<Rightarrow> addr list \<Rightarrow> bool" where
  "sll h l as = (distinct as \<and> path n_next h (sl_head l) as None
      \<and> sl_tail l = (if as = [] then None else Some (last as)) \<and> sl_size l = length as)"

text \<open>
  A well-formed doubly linked list with the nodes \<open>as\<close>: \<^verbatim>\<open>head_\<close> leads through \<open>as\<close> to
  null along \<^verbatim>\<open>next\<close>, and \<^verbatim>\<open>tail_\<close> leads through the same nodes backwards to null along
  \<^verbatim>\<open>prev\<close>. So \<^verbatim>\<open>head_->prev\<close> and \<^verbatim>\<open>tail_->next\<close> are null and every \<^verbatim>\<open>prev\<close> mirrors a
  \<^verbatim>\<open>next\<close>.
\<close>

definition dll :: "(addr \<rightharpoonup> 'a DNode) \<Rightarrow> DoublyLinkedList \<Rightarrow> addr list \<Rightarrow> bool" where
  "dll h l as = (distinct as \<and> path n_next h (dl_head l) as None
      \<and> path n_prev h (dl_tail l) (rev as) None \<and> dl_size l = length as)"

subsection \<open>reverse\<close>

text \<open>\<^verbatim>\<open>SinglyLinkedList::reverse\<close>: the loop, then the function.\<close>

partial_function (option) sll_reverse_loop ::
    "(addr \<rightharpoonup> 'a SNode) \<Rightarrow> addr option \<Rightarrow> addr option \<Rightarrow> ((addr \<rightharpoonup> 'a SNode) \<times> addr option) option" where
  "sll_reverse_loop h prv current =
     (case current of
        None \<Rightarrow> Some (h, prv)
      | Some a \<Rightarrow> do {
          n \<leftarrow> h a;
          let next_temp = n_next n;
          h' \<leftarrow> update_node h current (\<lambda>n. n\<lparr>n_next := prv\<rparr>);
          sll_reverse_loop h' current next_temp
        })"

definition sll_reverse :: "(addr \<rightharpoonup> 'a SNode) \<Rightarrow> SinglyLinkedList
    \<Rightarrow> ((addr \<rightharpoonup> 'a SNode) \<times> SinglyLinkedList) option" where
  "sll_reverse h l =
     (if sl_size l \<le> 1 then Some (h, l)
      else do {
        let l1 = l\<lparr>sl_tail := sl_head l\<rparr>;
        (h', prv) \<leftarrow> sll_reverse_loop h None (sl_head l);
        Some (h', l1\<lparr>sl_head := prv\<rparr>)
      })"

text \<open>\<^verbatim>\<open>DoublyLinkedList::reverse\<close>.\<close>

partial_function (option) dll_reverse_loop ::
    "(addr \<rightharpoonup> 'a DNode) \<Rightarrow> addr option \<Rightarrow> (addr \<rightharpoonup> 'a DNode) option" where
  "dll_reverse_loop h current =
     (case current of
        None \<Rightarrow> Some h
      | Some a \<Rightarrow> do {
          n \<leftarrow> h a;
          let temp = n_prev n;
          let n' = n\<lparr>n_prev := n_next n, n_next := temp\<rparr>;
          dll_reverse_loop (h(a \<mapsto> n')) (n_prev n')
        })"

definition dll_reverse :: "(addr \<rightharpoonup> 'a DNode) \<Rightarrow> DoublyLinkedList
    \<Rightarrow> ((addr \<rightharpoonup> 'a DNode) \<times> DoublyLinkedList) option" where
  "dll_reverse h l =
     (if dl_size l \<le> 1 then Some (h, l)
      else do {
        h' \<leftarrow> dll_reverse_loop h (dl_head l);
        Some (h', l\<lparr>dl_head := dl_tail l, dl_tail := dl_head l\<rparr>)
      })"

subsection \<open>Merge sort\<close>

text \<open>
  \<^verbatim>\<open>DoublyLinkedList::merge_sorted_lists\<close> and \<^verbatim>\<open>DoublyLinkedList::merge_sort\<close>. The
  comparison \<^verbatim>\<open>first->data <= second->data\<close> is the parameter \<open>le\<close>. The only statement
  that touches \<^verbatim>\<open>prev\<close> is a parameter as well: \<open>set_prev n p\<close> is the node \<open>n\<close> after
  \<^verbatim>\<open>n.prev = p\<close>. For the doubly linked list it is \<open>dll_set_prev\<close>.
\<close>

definition dll_set_prev :: "'a DNode \<Rightarrow> addr option \<Rightarrow> 'a DNode" where
  "dll_set_prev n p = n\<lparr>n_prev := p\<rparr>"

text \<open>The loop \<^verbatim>\<open>while (first && second)\<close> of \<^verbatim>\<open>merge_sorted_lists\<close>.\<close>

partial_function (option) merge_loop ::
    "(('a, 'm) SNode_scheme \<Rightarrow> addr option \<Rightarrow> ('a, 'm) SNode_scheme) \<Rightarrow> ('a \<Rightarrow> 'a \<Rightarrow> bool)
     \<Rightarrow> (addr \<rightharpoonup> ('a, 'm) SNode_scheme) \<Rightarrow> addr option \<Rightarrow> addr option \<Rightarrow> addr option \<Rightarrow> addr option
     \<Rightarrow> ((addr \<rightharpoonup> ('a, 'm) SNode_scheme) \<times> addr option \<times> addr option \<times> addr option \<times> addr option) option" where
  "merge_loop set_prev le h first second result tail =
     (case first of
        None \<Rightarrow> Some (h, first, second, result, tail)
      | Some f \<Rightarrow>
         (case second of
            None \<Rightarrow> Some (h, first, second, result, tail)
          | Some s \<Rightarrow> do {
              fn \<leftarrow> h f;
              sn \<leftarrow> h s;
              let (nxt, first', second') =
                (if le (n_data fn) (n_data sn) then (first, n_next fn, second)
                 else (second, first, n_next sn));
              (h1, result') \<leftarrow>
                (case result of
                   None \<Rightarrow> Some (h, nxt)
                 | Some r \<Rightarrow> do {
                     h' \<leftarrow> update_node h tail (\<lambda>n. n\<lparr>n_next := nxt\<rparr>);
                     Some (h', result)
                   });
              h2 \<leftarrow> update_node h1 nxt (\<lambda>n. set_prev n tail);
              merge_loop set_prev le h2 first' second' result' nxt
            }))"

text \<open>The loop \<^verbatim>\<open>while (tail->next) tail = tail->next\<close>.\<close>

partial_function (option) walk_to_last ::
    "(addr \<rightharpoonup> ('a, 'm) SNode_scheme) \<Rightarrow> addr option \<Rightarrow> addr option option" where
  "walk_to_last h tail =
     do {
       tn \<leftarrow> deref h tail;
       case n_next tn of None \<Rightarrow> Some tail | Some t \<Rightarrow> walk_to_last h (n_next tn)
     }"

text \<open>
  \<^verbatim>\<open>if (first) { tail->next = first; first->prev = tail; while (tail->next) ... }\<close>, and
  the same statement for \<^verbatim>\<open>second\<close>.
\<close>

definition append_rest ::
    "(('a, 'm) SNode_scheme \<Rightarrow> addr option \<Rightarrow> ('a, 'm) SNode_scheme)
     \<Rightarrow> (addr \<rightharpoonup> ('a, 'm) SNode_scheme) \<Rightarrow> addr option \<Rightarrow> addr option
     \<Rightarrow> ((addr \<rightharpoonup> ('a, 'm) SNode_scheme) \<times> addr option) option" where
  "append_rest set_prev h tail rest =
     (case rest of
        None \<Rightarrow> Some (h, tail)
      | Some r \<Rightarrow> do {
          h1 \<leftarrow> update_node h tail (\<lambda>n. n\<lparr>n_next := rest\<rparr>);
          h2 \<leftarrow> update_node h1 rest (\<lambda>n. set_prev n tail);
          tail' \<leftarrow> walk_to_last h2 tail;
          Some (h2, tail')
        })"

definition merge_sorted_lists ::
    "(('a, 'm) SNode_scheme \<Rightarrow> addr option \<Rightarrow> ('a, 'm) SNode_scheme) \<Rightarrow> ('a \<Rightarrow> 'a \<Rightarrow> bool)
     \<Rightarrow> (addr \<rightharpoonup> ('a, 'm) SNode_scheme) \<Rightarrow> addr option \<Rightarrow> addr option
     \<Rightarrow> ((addr \<rightharpoonup> ('a, 'm) SNode_scheme) \<times> addr option \<times> addr option) option" where
  "merge_sorted_lists set_prev le h first second =
     (if first = None then Some (h, second, second)
      else if second = None then Some (h, first, first)
      else do {
        (h1, first', second', result, tail) \<leftarrow> merge_loop set_prev le h first second None None;
        (h2, tail2) \<leftarrow> append_rest set_prev h1 tail first';
        (h3, tail3) \<leftarrow> append_rest set_prev h2 tail2 second';
        Some (h3, result, tail3)
      })"

text \<open>The loop \<^verbatim>\<open>while (fast && fast->next)\<close> of \<^verbatim>\<open>merge_sort\<close>; it returns \<^verbatim>\<open>slow\<close>.\<close>

partial_function (option) find_middle ::
    "(addr \<rightharpoonup> ('a, 'm) SNode_scheme) \<Rightarrow> addr option \<Rightarrow> addr option \<Rightarrow> addr option option" where
  "find_middle h slow fast =
     (case fast of
        None \<Rightarrow> Some slow
      | Some f \<Rightarrow> do {
          fn \<leftarrow> h f;
          case n_next fn of
            None \<Rightarrow> Some slow
          | Some f1 \<Rightarrow> do {
              sn \<leftarrow> deref h slow;
              f1n \<leftarrow> h f1;
              find_middle h (n_next sn) (n_next f1n)
            }
        })"

partial_function (option) merge_sort ::
    "(('a, 'm) SNode_scheme \<Rightarrow> addr option \<Rightarrow> ('a, 'm) SNode_scheme) \<Rightarrow> ('a \<Rightarrow> 'a \<Rightarrow> bool)
     \<Rightarrow> (addr \<rightharpoonup> ('a, 'm) SNode_scheme) \<Rightarrow> addr option
     \<Rightarrow> ((addr \<rightharpoonup> ('a, 'm) SNode_scheme) \<times> addr option) option" where
  "merge_sort set_prev le h head =
     (case head of
        None \<Rightarrow> Some (h, head)
      | Some a \<Rightarrow> do {
          n \<leftarrow> h a;
          if n_next n = None then Some (h, head)
          else do {
            slow \<leftarrow> find_middle h head (n_next n);
            sn \<leftarrow> deref h slow;
            let right = n_next sn;
            h1 \<leftarrow> update_node h slow (\<lambda>n. n\<lparr>n_next := None\<rparr>);
            (h2, left_sorted) \<leftarrow> merge_sort set_prev le h1 head;
            (h3, right_sorted) \<leftarrow> merge_sort set_prev le h2 right;
            (h4, result, tail) \<leftarrow> merge_sorted_lists set_prev le h3 left_sorted right_sorted;
            Some (h4, result)
          }
        })"

text \<open>
  \<^verbatim>\<open>DoublyLinkedList::sort\<close>: merge sort, then the pass that sets \<^verbatim>\<open>current->next->prev\<close>
  for every node and finds the tail.
\<close>

partial_function (option) repair_prev ::
    "(addr \<rightharpoonup> 'a DNode) \<Rightarrow> addr option \<Rightarrow> ((addr \<rightharpoonup> 'a DNode) \<times> addr option) option" where
  "repair_prev h current =
     do {
       cn \<leftarrow> deref h current;
       case n_next cn of
         None \<Rightarrow> Some (h, current)
       | Some nx \<Rightarrow> do {
           h' \<leftarrow> update_node h (n_next cn) (\<lambda>n. n\<lparr>n_prev := current\<rparr>);
           repair_prev h' (n_next cn)
         }
     }"

definition dll_sort :: "('a \<Rightarrow> 'a \<Rightarrow> bool) \<Rightarrow> (addr \<rightharpoonup> 'a DNode) \<Rightarrow> DoublyLinkedList
    \<Rightarrow> ((addr \<rightharpoonup> 'a DNode) \<times> DoublyLinkedList) option" where
  "dll_sort le h l =
     (if dl_size l \<le> 1 then Some (h, l)
      else do {
        (h1, hd') \<leftarrow> merge_sort dll_set_prev le h (dl_head l);
        (h2, current) \<leftarrow> repair_prev h1 hd';
        Some (h2, l\<lparr>dl_head := hd', dl_tail := current\<rparr>)
      })"

text \<open>
  Modelled from the spec: \<^verbatim>\<open>SinglyLinkedList::sort\<close> calls \<^verbatim>\<open>merge_sort(head_)\<close>, but the
  singly linked list neither declares nor defines \<^verbatim>\<open>merge_sort\<close>. The spec describes it
  as the merge sort of the doubly linked list without the \<^verbatim>\<open>prev\<close> pointers: split at the
  middle found by the slow and the fast pointer, sort each half, merge the two sorted
  chains by comparing their heads and relinking, on ties taking the node of the left
  chain first. So it is \<open>merge_sort\<close> with a \<open>set_prev\<close> that leaves the node alone.
\<close>

definition sll_set_prev :: "'a SNode \<Rightarrow> addr option \<Rightarrow> 'a SNode" where
  "sll_set_prev n p = n"

text \<open>\<^verbatim>\<open>SinglyLinkedList::sort\<close>: merge sort, then the walk to the new tail.\<close>

definition sll_sort :: "('a \<Rightarrow> 'a \<Rightarrow> bool) \<Rightarrow> (addr \<rightharpoonup> 'a SNode) \<Rightarrow> SinglyLinkedList
    \<Rightarrow> ((addr \<rightharpoonup> 'a SNode) \<times> SinglyLinkedList) option" where
  "sll_sort le h l =
     (if sl_size l \<le> 1 then Some (h, l)
      else do {
        (h1, hd') \<leftarrow> merge_sort sll_set_prev le h (sl_head l);
        current \<leftarrow> walk_to_last h1 hd';
        Some (h1, l\<lparr>sl_head := hd', sl_tail := current\<rparr>)
      })"

subsection \<open>splice\<close>

text \<open>The loop \<^verbatim>\<open>for (auto it = first; it != last; ++it) ++count\<close>.\<close>

partial_function (option) range_count ::
    "(addr \<rightharpoonup> 'a DNode) \<Rightarrow> addr option \<Rightarrow> addr option \<Rightarrow> nat \<Rightarrow> nat option" where
  "range_count h it lst cnt =
     (if it = lst then Some cnt
      else do {
        n \<leftarrow> deref h it;
        range_count h (n_next n) lst (cnt + 1)
      })"

text \<open>
  \<^verbatim>\<open>DoublyLinkedList::splice(pos, other, first, last)\<close> on the list \<open>this\<close>. The flag
  \<open>other_is_this\<close> is the test \<^verbatim>\<open>&other == this\<close>. The iterators are the node pointers
  they hold, \<^verbatim>\<open>end()\<close> being null. The result is the heap, \<open>this\<close> and \<open>other\<close> after the
  call.
\<close>

definition dll_splice :: "(addr \<rightharpoonup> 'a DNode) \<Rightarrow> DoublyLinkedList \<Rightarrow> DoublyLinkedList \<Rightarrow> bool
    \<Rightarrow> addr option \<Rightarrow> addr option \<Rightarrow> addr option
    \<Rightarrow> ((addr \<rightharpoonup> 'a DNode) \<times> DoublyLinkedList \<times> DoublyLinkedList) option" where
  "dll_splice h this other other_is_this pos first lst =
     (if first = lst then Some (h, this, other)
      else if other_is_this then Some (h, this, other)
      else do {
        cnt \<leftarrow> range_count h first lst 0;
        fn \<leftarrow> deref h first;
        let before_first = n_prev fn;
        ln \<leftarrow> deref h lst;
        let before_last = n_prev ln;
        let insert_pos = pos;
        (h1, other1) \<leftarrow>
          (case before_first of
             Some bf \<Rightarrow> do {
               h' \<leftarrow> update_node h before_first (\<lambda>n. n\<lparr>n_next := lst\<rparr>);
               Some (h', other)
             }
           | None \<Rightarrow> Some (h, other\<lparr>dl_head := lst\<rparr>));
        h2 \<leftarrow>
          (case lst of
             Some la \<Rightarrow> update_node h1 lst (\<lambda>n. n\<lparr>n_prev := before_first\<rparr>)
           | None \<Rightarrow> Some h1);
        let first_node = first;
        (h3, this1) \<leftarrow>
          (case insert_pos of
             Some ip \<Rightarrow> do {
               ipn \<leftarrow> h2 ip;
               let before_pos = n_prev ipn;
               (h', this') \<leftarrow>
                 (case before_pos of
                    Some bp \<Rightarrow> do {
                      h' \<leftarrow> update_node h2 before_pos (\<lambda>n. n\<lparr>n_next := first_node\<rparr>);
                      Some (h', this)
                    }
                  | None \<Rightarrow> Some (h2, this\<lparr>dl_head := first_node\<rparr>));
               h'' \<leftarrow> update_node h' first_node (\<lambda>n. n\<lparr>n_prev := before_pos\<rparr>);
               h''' \<leftarrow> update_node h'' before_last (\<lambda>n. n\<lparr>n_next := insert_pos\<rparr>);
               h'''' \<leftarrow> update_node h''' insert_pos (\<lambda>n. n\<lparr>n_prev := before_last\<rparr>);
               Some (h'''', this')
             }
           | None \<Rightarrow> do {
               (h', this') \<leftarrow>
                 (case dl_tail this of
                    Some t \<Rightarrow> do {
                      h' \<leftarrow> update_node h2 (dl_tail this) (\<lambda>n. n\<lparr>n_next := first_node\<rparr>);
                      h'' \<leftarrow> update_node h' first_node (\<lambda>n. n\<lparr>n_prev := dl_tail this\<rparr>);
                      Some (h'', this)
                    }
                  | None \<Rightarrow> do {
                      h' \<leftarrow> update_node h2 first_node (\<lambda>n. n\<lparr>n_prev := None\<rparr>);
                      Some (h', this\<lparr>dl_head := first_node\<rparr>)
                    });
               let this'' = this'\<lparr>dl_tail := before_last\<rparr>;
               h'' \<leftarrow> update_node h' (dl_tail this'') (\<lambda>n. n\<lparr>n_next := None\<rparr>);
               Some (h'', this'')
             });
        Some (h3, this1\<lparr>dl_size := dl_size this1 + cnt\<rparr>,
                  other1\<lparr>dl_size := dl_size other1 - cnt\<rparr>)
      })"

subsection \<open>The sorting function that merge sort computes\<close>

text \<open>
  Merging and merge sort on plain lists, with the comparison \<open>c\<close>; the heap algorithm
  is shown to rearrange the nodes exactly as \<open>pmsort\<close> rearranges their addresses.
\<close>

fun pmerge :: "('b \<Rightarrow> 'b \<Rightarrow> bool) \<Rightarrow> 'b list \<Rightarrow> 'b list \<Rightarrow> 'b list" where
  "pmerge c [] ys = ys"
| "pmerge c xs [] = xs"
| "pmerge c (x # xs) (y # ys) =
     (if c x y then x # pmerge c xs (y # ys) else y # pmerge c (x # xs) ys)"

function pmsort :: "('b \<Rightarrow> 'b \<Rightarrow> bool) \<Rightarrow> 'b list \<Rightarrow> 'b list" where
  "pmsort c xs =
     (if length xs \<le> 1 then xs
      else pmerge c (pmsort c (take ((length xs + 1) div 2) xs))
                    (pmsort c (drop ((length xs + 1) div 2) xs)))"
  by pat_completeness auto
termination
  by (relation "measure (\<lambda>(c, xs). length xs)") auto

text \<open>Comparing two nodes by the elements they hold in the heap \<open>h\<close>.\<close>

definition by_data :: "('a \<Rightarrow> 'a \<Rightarrow> bool) \<Rightarrow> (addr \<rightharpoonup> ('a, 'm) SNode_scheme) \<Rightarrow> addr \<Rightarrow> addr \<Rightarrow> bool" where
  "by_data le h a b = le (n_data (the (h a))) (n_data (the (h b)))"

text \<open>Two heaps with the same live nodes holding the same elements.\<close>

definition same_data :: "(addr \<rightharpoonup> ('a, 'm) SNode_scheme) \<Rightarrow> (addr \<rightharpoonup> ('a, 'm) SNode_scheme) \<Rightarrow> bool" where
  "same_data h h' = (\<forall>a. map_option n_data (h' a) = map_option n_data (h a))"


subsection \<open>Notions used in the proofs\<close>

text \<open>A node of the doubly linked list with \<^verbatim>\<open>prev\<close> and \<^verbatim>\<open>next\<close> exchanged.\<close>

definition swap_links :: "'a DNode \<Rightarrow> 'a DNode" where
  "swap_links n = n\<lparr>n_prev := n_next n, n_next := n_prev n\<rparr>"


text \<open>
  The state of \<^verbatim>\<open>merge_sorted_lists\<close> between two steps: the nodes \<open>zs\<close> have been
  merged, \<^verbatim>\<open>result\<close> leads to the last of them, which is \<^verbatim>\<open>tail\<close>. \<open>linked sp h zs nx\<close>
  is the heap after the node \<open>nx\<close> has been attached behind them. \<open>keeps_links\<close> and
  \<open>head_mark\<close> say what the proofs need of the parameter \<open>set_prev\<close>.
\<close>

definition merged_prefix ::
    "(addr \<rightharpoonup> ('a, 'm) SNode_scheme) \<Rightarrow> addr option \<Rightarrow> addr option \<Rightarrow> addr list \<Rightarrow> bool" where
  "merged_prefix h result tail zs =
     (if zs = [] then result = None \<and> tail = None
      else tail = Some (last zs) \<and> path n_next h result (butlast zs) tail \<and> h (last zs) \<noteq> None)"

definition linked ::
    "(('a, 'm) SNode_scheme \<Rightarrow> addr option \<Rightarrow> ('a, 'm) SNode_scheme)
     \<Rightarrow> (addr \<rightharpoonup> ('a, 'm) SNode_scheme) \<Rightarrow> addr list \<Rightarrow> addr \<Rightarrow> (addr \<rightharpoonup> ('a, 'm) SNode_scheme)" where
  "linked sp h zs nx =
     (if zs = [] then h(nx \<mapsto> sp (the (h nx)) None)
      else (h(last zs \<mapsto> (the (h (last zs)))\<lparr>n_next := Some nx\<rparr>))
             (nx \<mapsto> sp (the (h nx)) (Some (last zs))))"

definition keeps_links :: "(('a, 'm) SNode_scheme \<Rightarrow> addr option \<Rightarrow> ('a, 'm) SNode_scheme) \<Rightarrow> bool" where
  "keeps_links sp = (\<forall>n p. n_next (sp n p) = n_next n \<and> n_data (sp n p) = n_data n)"

definition head_mark ::
    "(('a, 'm) SNode_scheme \<Rightarrow> addr option \<Rightarrow> ('a, 'm) SNode_scheme) \<Rightarrow> (('a, 'm) SNode_scheme \<Rightarrow> bool) \<Rightarrow> bool" where
  "head_mark sp Q = ((\<forall>n. Q (sp n None)) \<and> (\<forall>n x. Q n \<longrightarrow> Q (n\<lparr>n_next := x\<rparr>)))"


subsection \<open>Example lists\<close>

text \<open>
  Three nodes holding \<open>(2, c)\<close>, \<open>(1, a)\<close>, \<open>(1, b)\<close>, as a singly and as a doubly linked
  list; \<open>le_fst\<close> compares the first components only. A second doubly linked list
  holds 5, 6, 7.
\<close>

definition example_sll_heap :: "addr \<rightharpoonup> (nat \<times> string) SNode" where
  "example_sll_heap = map_of
     [(1, \<lparr>n_data = (2, ''c''), n_next = Some 2\<rparr>),
      (2, \<lparr>n_data = (1, ''a''), n_next = Some 3\<rparr>),
      (3, \<lparr>n_data = (1, ''b''), n_next = None\<rparr>)]"

definition example_sll :: SinglyLinkedList where
  "example_sll = \<lparr>sl_head = Some 1, sl_tail = Some 3, sl_size = 3\<rparr>"

definition example_dll_heap :: "addr \<rightharpoonup> (nat \<times> string) DNode" where
  "example_dll_heap = map_of
     [(1, \<lparr>n_data = (2, ''c''), n_next = Some 2, n_prev = None\<rparr>),
      (2, \<lparr>n_data = (1, ''a''), n_next = Some 3, n_prev = Some 1\<rparr>),
      (3, \<lparr>n_data = (1, ''b''), n_next = None, n_prev = Some 2\<rparr>)]"

definition example_dll :: DoublyLinkedList where
  "example_dll = \<lparr>dl_head = Some 1, dl_tail = Some 3, dl_size = 3\<rparr>"

definition empty_dll :: DoublyLinkedList where
  "empty_dll = \<lparr>dl_head = None, dl_tail = None, dl_size = 0\<rparr>"

definition le_fst :: "nat \<times> string \<Rightarrow> nat \<times> string \<Rightarrow> bool" where
  "le_fst x y = (fst x \<le> fst y)"

definition splice_heap :: "addr \<rightharpoonup> nat DNode" where
  "splice_heap = map_of
     [(10, \<lparr>n_data = 5, n_next = Some 20, n_prev = None\<rparr>),
      (20, \<lparr>n_data = 6, n_next = Some 30, n_prev = Some 10\<rparr>),
      (30, \<lparr>n_data = 7, n_next = None, n_prev = Some 20\<rparr>)]"

definition splice_source :: DoublyLinkedList where
  "splice_source = \<lparr>dl_head = Some 10, dl_tail = Some 30, dl_size = 3\<rparr>"


section \<open>Verification of the circular array\<close>

subsection \<open>Index normalisation\<close>

lemma sint_as_uint:
  fixes w :: "64 word"
  shows "sint w = (if w <s 0 then uint w - 2 ^ 64 else uint w)"
proof -
  have u: "uint w = sint w mod 2 ^ 64"
    using uint_sint [of w] unfolding take_bit_eq_mod by simp
  have lo: "- (2 ^ 63) \<le> sint w" using sint_ge [of w] by simp
  have hi: "sint w < 2 ^ 63" using sint_less [of w] by simp
  show ?thesis
  proof (cases "sint w < 0")
    case True
    have "(sint w + 2 ^ 64) mod 2 ^ 64 = sint w + 2 ^ 64"
      using lo hi True by (intro mod_pos_pos_trivial) simp_all
    then have "sint w mod 2 ^ 64 = sint w + 2 ^ 64"
      by (simp only: mod_add_self2)
    then show ?thesis using True u by (simp add: word_sless_alt)
  next
    case False
    then have "sint w mod 2 ^ 64 = sint w"
      using hi by (intro mod_pos_pos_trivial) simp_all
    then show ?thesis using False u by (simp add: word_sless_alt)
  qed
qed

lemma normalize_index_mod:
  assumes "0 < capacity" and "- uint capacity \<le> sint index"
  shows "uint (normalize_index capacity index) = sint index mod uint capacity"
proof (cases "index <s 0")
  case True
  then have s: "sint index = uint index - 2 ^ 64" by (simp add: sint_as_uint)
  have neg: "sint index < 0" using True by (simp add: word_sless_alt)
  have "uint (index + capacity) = (uint index + uint capacity) mod 2 ^ 64"
    by (simp add: uint_word_ariths)
  also have "uint index + uint capacity = (sint index + uint capacity) + 2 ^ 64"
    using s by simp
  also have "((sint index + uint capacity) + 2 ^ 64) mod 2 ^ 64 = sint index + uint capacity"
    using assms(2) neg uint_lt2p [of capacity] by (simp add: mod_pos_pos_trivial)
  finally have "uint (index + capacity) = sint index + uint capacity" .
  then show ?thesis using True by (simp add: normalize_index_def uint_mod)
next
  case False
  then have "sint index = uint index" by (simp add: sint_as_uint)
  then show ?thesis using False by (simp add: normalize_index_def uint_mod)
qed

lemma normalize_index_mod_dvd:
  assumes "uint capacity dvd 2 ^ 64"
  shows "uint (normalize_index capacity index) = sint index mod uint capacity"
proof (cases "index <s 0")
  case True
  then have s: "uint index = sint index + 2 ^ 64" by (simp add: sint_as_uint)
  have z: "(2 ^ 64 :: int) mod uint capacity = 0" using assms by (rule dvd_imp_mod_0)
  have "uint (index + capacity) = (uint index + uint capacity) mod 2 ^ 64"
    by (simp add: uint_word_ariths)
  then have "uint (index + capacity) mod uint capacity
      = (uint index + uint capacity) mod 2 ^ 64 mod uint capacity" by simp
  also have "\<dots> = (uint index + uint capacity) mod uint capacity"
    using assms by (rule mod_mod_cancel)
  also have "\<dots> = uint index mod uint capacity" by simp
  also have "\<dots> = (sint index mod uint capacity + 2 ^ 64 mod uint capacity) mod uint capacity"
    unfolding s by (rule mod_add_eq [symmetric])
  also have "\<dots> = sint index mod uint capacity" unfolding z by simp
  finally show ?thesis using True by (simp add: normalize_index_def uint_mod)
next
  case False
  then have "sint index = uint index" by (simp add: sint_as_uint)
  then show ?thesis using False by (simp add: normalize_index_def uint_mod)
qed

lemma normalize_index_range:
  assumes "0 < capacity"
  shows "normalize_index capacity index < capacity"
  using assms by (simp add: normalize_index_def Let_def word_mod_less_divisor)


text \<open>
  Claim C7, as the code has it: for every capacity \<open>> 0\<close> and every signed offset \<open>i\<close> that
  is not below \<open>- capacity\<close>, \<^verbatim>\<open>normalize_index(i)\<close> is the mathematical \<open>i mod capacity\<close>,
  the representative of \<open>i\<close> in \<open>[0, capacity)\<close>; when the capacity is a power of two (it
  divides \<open>2 ^ 64\<close>, as the default capacity 16 does) this holds for every offset. The
  function adds the capacity once, so for other capacities the offsets below
  \<open>- capacity\<close> are outside its range; no caller in the class passes one.
\<close>

theorem normalize_index_correct:
  assumes "0 < capacity" and "- uint capacity \<le> sint i \<or> uint capacity dvd 2 ^ 64"
  shows "uint (normalize_index capacity i) = sint i mod uint capacity
         \<and> normalize_index capacity i < capacity"
  using assms normalize_index_mod [of capacity i] normalize_index_mod_dvd [of capacity i]
  by (auto simp: normalize_index_range)

theorem normalize_index_correct_witness:
  "(0 :: size_type) < 3 \<and> - uint (3 :: size_type) \<le> sint (- 1 :: difference_type)
   \<and> uint (normalize_index 3 (- 1)) = 2 \<and> normalize_index 3 (- 1) < 3
   \<and> (0 :: size_type) < 16 \<and> uint (16 :: size_type) dvd 2 ^ 64
   \<and> uint (normalize_index 16 (- 100)) = 12 \<and> normalize_index 16 (- 100) < 16"
proof -
  have d: "uint (16 :: size_type) dvd 2 ^ 64" by simp
  show ?thesis
    using normalize_index_correct [of 3 "- 1"] normalize_index_correct [of 16 "- 100"] d
    by simp
qed

text \<open>
  Claim C7 as stated fails below \<open>- capacity\<close>: with capacity 3 the offset \<open>- 4\<close> is still
  negative after one addition, is then read as the unsigned \<open>2 ^ 64 - 1\<close>, and the result
  is 0 where \<open>- 4 mod 3\<close> is 2.
\<close>

theorem normalize_index_below_minus_capacity:
  "uint (normalize_index 3 (- 4)) \<noteq> sint (- 4 :: difference_type) mod uint (3 :: size_type)"
  by code_simp

subsection \<open>Concrete runs\<close>

text \<open>
  Claim C5: from an empty array of capacity 4, \<^verbatim>\<open>push_back\<close> of 1, 2, 3, 4, then
  \<^verbatim>\<open>pop_front()\<close>, then \<^verbatim>\<open>push_back(5)\<close> gives the logical sequence 2, 3, 4, 5 with
  \<^verbatim>\<open>full()\<close> true; one more \<^verbatim>\<open>push_back\<close> throws the "CircularArray is full" error and
  leaves every member of the array as it was.
\<close>

theorem ca_wraparound_scenario:
  "(case ca_new 4 of
      Inl e \<Rightarrow> False
    | Inr c0 \<Rightarrow>
       (case calls [ca_push_back (1::nat), ca_push_back 2, ca_push_back 3, ca_push_back 4,
                    ca_pop_front, ca_push_back 5] c0 of
          (r, c) \<Rightarrow> r = None
             \<and> ca_contents c = [Inr (Some 2), Inr (Some 3), Inr (Some 4), Inr (Some 5)]
             \<and> ca_full c
             \<and> ca_push_back 6 c = (Some CapacityExceeded, c)))"
  by code_simp

text \<open>
  On a full array \<^verbatim>\<open>rotate\<close> loses nothing: the window covers the whole buffer, and
  \<^verbatim>\<open>at(i)\<close> afterwards is what \<^verbatim>\<open>at((i + n) mod size)\<close> was before. With the elements
  1, 2, 3, \<^verbatim>\<open>rotate(1)\<close> gives 2, 3, 1 and \<^verbatim>\<open>rotate(-1)\<close> gives 3, 1, 2.
\<close>

lemma ca_rotate_full_example:
  "(case ca_new 3 of
      Inl e \<Rightarrow> False
    | Inr c0 \<Rightarrow>
       (case calls [ca_push_back (1::nat), ca_push_back 2, ca_push_back 3] c0 of
          (r, c) \<Rightarrow> r = None \<and> ca_full c
            \<and> ca_contents (snd (ca_rotate 1 c)) = [Inr (Some 2), Inr (Some 3), Inr (Some 1)]
            \<and> ca_contents (snd (ca_rotate (- 1) c)) = [Inr (Some 3), Inr (Some 1), Inr (Some 2)]))"
  by code_simp

text \<open>
  Claim C1 fails on an array that is neither empty nor full. \<^verbatim>\<open>rotate\<close> moves \<^verbatim>\<open>head_\<close>
  and \<^verbatim>\<open>tail_\<close> and no element, so the window slides over slots that hold no object:
  with capacity 4 and the elements 1, 2, \<^verbatim>\<open>rotate(1)\<close> leaves the size at 2 and the buffer
  untouched, but \<^verbatim>\<open>at(0)\<close> is now 2 and \<^verbatim>\<open>at(1)\<close> designates an empty slot; the element
  1 is no longer in the logical sequence.
\<close>

theorem ca_rotate_partial_loses_element:
  "(case ca_new 4 of
      Inl e \<Rightarrow> False
    | Inr c0 \<Rightarrow>
       (case calls [ca_push_back (1::nat), ca_push_back 2] c0 of
          (r, c) \<Rightarrow> r = None \<and> ca_contents c = [Inr (Some 1), Inr (Some 2)] \<and>
            (case ca_rotate 1 c of
               (r', c') \<Rightarrow> r' = None \<and> c_size c' = 2 \<and> c_buffer c' = c_buffer c
                  \<and> ca_contents c' = [Inr (Some 2), Inr None]
                  \<and> Inr (Some 1) \<notin> set (ca_contents c'))))"
  by code_simp

text \<open>
  Claim C2 fails right after the fill constructor: \<^verbatim>\<open>CircularArray(3, 7)\<close> sets
  \<^verbatim>\<open>tail_ = count = capacity_\<close>, where \<open>(head + size) mod capacity\<close> is 0. The copy of such
  an array has the same tail. The stale tail is an index outside the buffer: after one
  \<^verbatim>\<open>pop_front()\<close> the next \<^verbatim>\<open>push_back\<close> constructs its element at \<^verbatim>\<open>buffer_ + 3\<close>.
\<close>

theorem ca_fill_tail_not_normalized:
  "(case ca_fill 3 (7::nat) of
      Inl e \<Rightarrow> False
    | Inr c \<Rightarrow> c_buffer c = [Some 7, Some 7, Some 7] \<and> c_tail c = 3
        \<and> (c_head c + c_size c) mod c_capacity c = 0
        \<and> c_tail c \<noteq> (c_head c + c_size c) mod c_capacity c
        \<and> fst (calls [ca_pop_front, ca_push_back 8] c) = Some BufferOverrun
        \<and> (case ca_copy c of Inl e \<Rightarrow> False
             | Inr c1 \<Rightarrow> c_tail c1 = 3 \<and> (c_head c1 + c_size c1) mod c_capacity c1 = 0))"
  by code_simp

subsection \<open>The invariant of constructed, pushed and popped arrays\<close>

lemma sint_small:
  fixes w :: "64 word"
  assumes "w \<le> PTRDIFF_MAX"
  shows "sint w = uint w" "\<not> w <s 0"
proof -
  have "uint w \<le> uint PTRDIFF_MAX" using assms by (simp add: word_le_def)
  then have b: "uint w < 2 ^ 63" by (simp add: PTRDIFF_MAX_def)
  have lo: "- (2 ^ 63) \<le> uint w" by (rule order_trans [of _ 0]) simp_all
  have "signed_take_bit 63 (uint w) = uint w"
    using lo b by (rule signed_take_bit_int_eq_self)
  then show "sint w = uint w" using sint_uint [of w] by simp
  then show "\<not> w <s 0" by (simp add: word_sless_alt)
qed

lemma uint_succ_below:
  fixes x :: "64 word"
  assumes "x < capacity"
  shows "uint (x + 1) = uint x + 1"
proof -
  have "uint x < uint capacity" using assms by (simp add: word_less_def)
  moreover have "uint capacity < 2 ^ 64" using uint_lt2p [of capacity] by simp
  ultimately have "uint x + 1 < 2 ^ 64" by simp
  then show ?thesis by (simp add: uint_word_ariths mod_pos_pos_trivial)
qed

lemma uint_pred_pos:
  fixes x :: "64 word"
  assumes "x \<noteq> 0"
  shows "uint (x - 1) = uint x - 1"
proof -
  have "0 < uint x" using assms by (simp add: word_neq_0_conv word_less_def)
  moreover have "uint x < 2 ^ 64" using uint_lt2p [of x] by simp
  ultimately show ?thesis by (simp add: uint_word_ariths mod_pos_pos_trivial)
qed

lemma normalize_succ:
  assumes "x < capacity" "capacity \<le> PTRDIFF_MAX"
  shows "uint (normalize_index capacity (x + 1)) = (uint x + 1) mod uint capacity"
proof -
  have u: "uint (x + 1) = uint x + 1" using assms(1) by (rule uint_succ_below)
  have "uint x < uint capacity" using assms(1) by (simp add: word_less_def)
  then have "uint (x + 1) \<le> uint capacity" using u by simp
  then have "x + 1 \<le> PTRDIFF_MAX" using assms(2) by (simp add: word_le_def)
  then have "\<not> (x + 1) <s 0" by (rule sint_small)
  then show ?thesis using u by (simp add: normalize_index_def uint_mod)
qed

lemma normalize_pred:
  assumes "x < capacity" "capacity \<le> PTRDIFF_MAX"
  shows "uint (normalize_index capacity (x - 1)) = (uint x - 1) mod uint capacity"
proof -
  have x0: "0 \<le> uint x" by simp
  moreover have "uint x < uint capacity" using assms(1) by (simp add: word_less_def)
  ultimately have cpos: "0 < uint capacity" by linarith
  then have pos: "0 < capacity" by (simp add: word_less_def)
  have s: "sint (x - 1) = uint x - 1"
  proof (cases "x = 0")
    case True
    then show ?thesis by simp
  next
    case False
    then have u: "uint (x - 1) = uint x - 1" by (rule uint_pred_pos)
    have "uint x < uint capacity" using assms(1) by (simp add: word_less_def)
    then have "uint (x - 1) \<le> uint capacity" using u by simp
    then have "x - 1 \<le> PTRDIFF_MAX" using assms(2) by (simp add: word_le_def)
    then have "sint (x - 1) = uint (x - 1)" by (rule sint_small)
    then show ?thesis using u by simp
  qed
  have "- uint capacity \<le> sint (x - 1)" using s cpos x0 by linarith
  then show ?thesis using normalize_index_mod [OF pos, of "x - 1"] s by simp
qed

lemma ca_inv_new: "ca_new capacity = Inr c \<Longrightarrow> ca_inv c"
  by (auto simp: ca_new_def allocate_def ca_inv_def word_neq_0_conv split: if_splits)

lemma uint_size_succ:
  assumes "ca_inv c" "\<not> ca_full c"
  shows "uint (c_size c + 1) = uint (c_size c) + 1" "c_size c + 1 \<le> c_capacity c" "c_capacity c \<noteq> 0"
proof -
  have lt: "c_size c < c_capacity c" using assms by (auto simp: ca_inv_def ca_full_def)
  then show "uint (c_size c + 1) = uint (c_size c) + 1" by (rule uint_succ_below)
  then show "c_size c + 1 \<le> c_capacity c" using lt by (simp add: word_le_def word_less_def)
  show "c_capacity c \<noteq> 0" using lt by auto
qed

lemma uint_size_pred:
  assumes "ca_inv c" "\<not> ca_empty c"
  shows "uint (c_size c - 1) = uint (c_size c) - 1" "c_size c - 1 \<le> c_capacity c" "c_capacity c \<noteq> 0"
proof -
  have nz: "c_size c \<noteq> 0" using assms by (simp add: ca_empty_def)
  then show u: "uint (c_size c - 1) = uint (c_size c) - 1" by (rule uint_pred_pos)
  have le: "c_size c \<le> c_capacity c" using assms by (simp add: ca_inv_def)
  then show "c_size c - 1 \<le> c_capacity c" using u by (simp add: word_le_def)
  show "c_capacity c \<noteq> 0" using nz le by auto
qed

lemma ca_inv_push_back:
  assumes "ca_inv c" "ca_push_back v c = (None, c')"
  shows "ca_inv c'"
proof -
  have nf: "\<not> ca_full c" using assms(2) by (auto simp: ca_push_back_def)
  note sz = uint_size_succ [OF assms(1) nf]
  have inv: "c_capacity c \<le> PTRDIFF_MAX" "c_head c < c_capacity c" "c_tail c < c_capacity c"
    "uint (c_tail c) = (uint (c_head c) + uint (c_size c)) mod uint (c_capacity c)"
    using assms(1) sz(3) by (simp_all add: ca_inv_def)
  have pos: "0 < c_capacity c" using sz(3) by (simp add: word_neq_0_conv)
  have t: "uint (normalize_index (c_capacity c) (c_tail c + 1)) = (uint (c_tail c) + 1) mod uint (c_capacity c)"
    using inv(3) inv(1) by (rule normalize_succ)
  have c': "c' = c\<lparr>c_buffer := c_buffer c', c_tail := normalize_index (c_capacity c) (c_tail c + 1),
                  c_size := c_size c + 1\<rparr>"
    using assms(2) nf by (auto simp: ca_push_back_def split: sum.splits)
  have "uint (c_tail c') = (uint (c_head c') + uint (c_size c')) mod uint (c_capacity c')"
    by (subst (1 2 3 4) c') (simp add: t sz inv(4) mod_simps add.assoc)
  moreover have "c_tail c' < c_capacity c'"
    by (subst (1 2) c') (simp add: normalize_index_range pos)
  ultimately show ?thesis
    using inv sz by (subst c') (subst (asm) (1 2 3 4 5 6) c', simp add: ca_inv_def)
qed

lemma ca_inv_push_front:
  assumes "ca_inv c" "ca_push_front v c = (None, c')"
  shows "ca_inv c'"
proof -
  have nf: "\<not> ca_full c" using assms(2) by (auto simp: ca_push_front_def)
  note sz = uint_size_succ [OF assms(1) nf]
  have inv: "c_capacity c \<le> PTRDIFF_MAX" "c_head c < c_capacity c" "c_tail c < c_capacity c"
    "uint (c_tail c) = (uint (c_head c) + uint (c_size c)) mod uint (c_capacity c)"
    using assms(1) sz(3) by (simp_all add: ca_inv_def)
  have pos: "0 < c_capacity c" using sz(3) by (simp add: word_neq_0_conv)
  have h: "uint (normalize_index (c_capacity c) (c_head c - 1)) = (uint (c_head c) - 1) mod uint (c_capacity c)"
    using inv(2) inv(1) by (rule normalize_pred)
  have c': "c' = c\<lparr>c_buffer := c_buffer c', c_head := normalize_index (c_capacity c) (c_head c - 1),
                  c_size := c_size c + 1\<rparr>"
    using assms(2) nf by (auto simp: ca_push_front_def Let_def split: sum.splits)
  have "uint (c_tail c') = (uint (c_head c') + uint (c_size c')) mod uint (c_capacity c')"
    by (subst (1 2 3 4) c') (simp add: h sz inv(4) mod_simps)
  moreover have "c_head c' < c_capacity c'"
    by (subst (1 2) c') (simp add: normalize_index_range pos)
  ultimately show ?thesis
    using inv sz by (subst c') (subst (asm) (1 2 3 4 5 6) c', simp add: ca_inv_def)
qed

lemma ca_inv_pop_front:
  assumes "ca_inv c" "ca_pop_front c = (None, c')"
  shows "ca_inv c'"
proof -
  have ne: "\<not> ca_empty c" using assms(2) by (auto simp: ca_pop_front_def)
  note sz = uint_size_pred [OF assms(1) ne]
  have inv: "c_capacity c \<le> PTRDIFF_MAX" "c_head c < c_capacity c" "c_tail c < c_capacity c"
    "uint (c_tail c) = (uint (c_head c) + uint (c_size c)) mod uint (c_capacity c)"
    using assms(1) sz(3) by (simp_all add: ca_inv_def)
  have pos: "0 < c_capacity c" using sz(3) by (simp add: word_neq_0_conv)
  have h: "uint (normalize_index (c_capacity c) (c_head c + 1)) = (uint (c_head c) + 1) mod uint (c_capacity c)"
    using inv(2) inv(1) by (rule normalize_succ)
  have c': "c' = c\<lparr>c_buffer := c_buffer c', c_head := normalize_index (c_capacity c) (c_head c + 1),
                  c_size := c_size c - 1\<rparr>"
    using assms(2) ne by (auto simp: ca_pop_front_def split: sum.splits)
  have "uint (c_tail c') = (uint (c_head c') + uint (c_size c')) mod uint (c_capacity c')"
    by (subst (1 2 3 4) c') (simp add: h sz inv(4) mod_simps)
  moreover have "c_head c' < c_capacity c'"
    by (subst (1 2) c') (simp add: normalize_index_range pos)
  ultimately show ?thesis
    using inv sz by (subst c') (subst (asm) (1 2 3 4 5 6) c', simp add: ca_inv_def)
qed

lemma ca_inv_pop_back:
  assumes "ca_inv c" "ca_pop_back c = (None, c')"
  shows "ca_inv c'"
proof -
  have ne: "\<not> ca_empty c" using assms(2) by (auto simp: ca_pop_back_def)
  note sz = uint_size_pred [OF assms(1) ne]
  have inv: "c_capacity c \<le> PTRDIFF_MAX" "c_head c < c_capacity c" "c_tail c < c_capacity c"
    "uint (c_tail c) = (uint (c_head c) + uint (c_size c)) mod uint (c_capacity c)"
    using assms(1) sz(3) by (simp_all add: ca_inv_def)
  have pos: "0 < c_capacity c" using sz(3) by (simp add: word_neq_0_conv)
  have t: "uint (normalize_index (c_capacity c) (c_tail c - 1)) = (uint (c_tail c) - 1) mod uint (c_capacity c)"
    using inv(3) inv(1) by (rule normalize_pred)
  have c': "c' = c\<lparr>c_buffer := c_buffer c', c_tail := normalize_index (c_capacity c) (c_tail c - 1),
                  c_size := c_size c - 1\<rparr>"
    using assms(2) ne by (auto simp: ca_pop_back_def Let_def split: sum.splits)
  have "uint (c_tail c') = (uint (c_head c') + uint (c_size c')) mod uint (c_capacity c')"
    by (subst (1 2 3 4) c') (simp add: t sz inv(4) mod_simps add_diff_eq)
  moreover have "c_tail c' < c_capacity c'"
    by (subst (1 2) c') (simp add: normalize_index_range pos)
  ultimately show ?thesis
    using inv sz by (subst c') (subst (asm) (1 2 3 4 5 6) c', simp add: ca_inv_def)
qed

lemma ca_reachable_from_inv:
  assumes "ca_reachable_from c0 c" and "ca_inv c0"
  shows "ca_inv c"
  using assms
  by (induction rule: ca_reachable_from.induct)
     (auto intro: ca_inv_push_front ca_inv_push_back ca_inv_pop_front ca_inv_pop_back)

lemma ca_inv_full_head_tail:
  assumes "ca_inv c" "ca_full c"
  shows "c_head c = c_tail c"
proof (cases "c_capacity c = 0")
  case True
  then show ?thesis using assms(1) by (simp add: ca_inv_def)
next
  case False
  then have inv: "c_head c < c_capacity c"
    "uint (c_tail c) = (uint (c_head c) + uint (c_size c)) mod uint (c_capacity c)"
    using assms(1) by (simp_all add: ca_inv_def)
  have "uint (c_head c) < uint (c_capacity c)" using inv(1) by (simp add: word_less_def)
  then have "uint (c_tail c) = uint (c_head c)"
    using inv(2) assms(2) by (simp add: ca_full_def mod_pos_pos_trivial)
  then show ?thesis by (simp add: word_uint_eq_iff)
qed


text \<open>
  Where the tail is normalised, a full array has its two iterators at one position: in
  every array reached by pushes and pops from an array that \<^verbatim>\<open>CircularArray(capacity)\<close>
  built, if the size equals the capacity then the head equals the tail, \<^verbatim>\<open>begin()\<close> and
  \<^verbatim>\<open>end()\<close> are the same iterator, and the array is not empty unless the capacity is 0.
\<close>

lemma ca_new_full_begin_eq_end:
  assumes "ca_new capacity = Inr c0" and "ca_reachable_from c0 c" and "ca_full c"
  shows "c_head c = c_tail c" and "ca_begin c = ca_end c" and "it_eq (ca_begin c) (ca_end c)"
    and "c_capacity c \<noteq> 0 \<Longrightarrow> \<not> ca_empty c"
proof -
  have "ca_inv c0" using assms(1) by (rule ca_inv_new)
  then have "ca_inv c" by (rule ca_reachable_from_inv [OF assms(2)])
  then show ht: "c_head c = c_tail c" using assms(3) by (rule ca_inv_full_head_tail)
  then show "ca_begin c = ca_end c" by (simp add: ca_begin_def ca_end_def)
  then show "it_eq (ca_begin c) (ca_end c)" by (simp add: it_eq_def)
  show "\<not> ca_empty c" if "c_capacity c \<noteq> 0"
    using that assms(3) by (auto simp: ca_full_def ca_empty_def)
qed

text \<open>
  Claim C10 says that in every circular array reachable by push and pop operations whose
  size equals its capacity, \<^verbatim>\<open>begin()\<close> and \<^verbatim>\<open>end()\<close> are equal, both at the same buffer
  position since the head equals the tail. It fails on an array that the fill constructor
  built: \<^verbatim>\<open>CircularArray(3, 7)\<close> is full with \<^verbatim>\<open>head_ = 0\<close> and \<^verbatim>\<open>tail_ = 3\<close>, and so is the
  array after \<^verbatim>\<open>pop_front()\<close> and \<^verbatim>\<open>push_front(8)\<close>, which both return normally and touch
  slot 0 only. The array then holds 8, 7, 7 and is full, \<^verbatim>\<open>begin()\<close> is at position 0 and
  \<^verbatim>\<open>end()\<close> at position 3, which is no slot of the buffer. \<^verbatim>\<open>operator++\<close> takes \<^verbatim>\<open>begin()\<close>
  through the positions 1 and 2 and back to \<^verbatim>\<open>begin()\<close>: it never comes to the position
  of \<^verbatim>\<open>end()\<close>. The cause is the tail that the fill constructor leaves at the capacity
  (claim C2); \<^verbatim>\<open>push_back\<close> on an array from \<^verbatim>\<open>CircularArray(capacity)\<close> normalises it.
\<close>

theorem ca_fill_full_begin_ne_end:
  "(case ca_fill 3 (7::nat) of
      Inl e \<Rightarrow> False
    | Inr c \<Rightarrow> ca_full c \<and> c_head c = 0 \<and> c_tail c = 3
        \<and> (case calls [ca_pop_front, ca_push_front 8] c of
             (r, c') \<Rightarrow> r = None \<and> ca_full c' \<and> \<not> ca_empty c'
                \<and> c_size c' = 3 \<and> c_capacity c' = 3
                \<and> c_buffer c' = [Some 8, Some 7, Some 7]
                \<and> ca_contents c' = [Inr (Some 8), Inr (Some 7), Inr (Some 7)]
                \<and> c_head c' = 0 \<and> c_tail c' = 3
                \<and> it_position (ca_begin c') = 0 \<and> it_position (ca_end c') = 3
                \<and> \<not> it_eq (ca_begin c') (ca_end c')
                \<and> ca_begin c' \<noteq> ca_end c'
                \<and> it_position (it_incr (ca_begin c')) = 1
                \<and> it_position (it_incr (it_incr (ca_begin c'))) = 2
                \<and> it_incr (it_incr (it_incr (ca_begin c'))) = ca_begin c'))"
  by code_simp

section \<open>Verification of the dynamic array\<close>

lemma float_excess_small: "n < 2 ^ 24 \<Longrightarrow> float_excess n = 0"
  by simp

lemma float_round_small: "n < 2 ^ 24 \<Longrightarrow> float_round n = n"
  by (simp add: float_round_def del: float_excess.simps add: float_excess_small)

lemma scaled_capacity_small:
  assumes "3 * capacity < 2 ^ 24"
  shows "scaled_capacity capacity = 3 * capacity div 2"
proof -
  have "capacity < 2 ^ 24" using assms by simp
  then show ?thesis using assms by (simp add: scaled_capacity_def float_round_small)
qed

lemma length_fold_update:
  "length (fold (\<lambda>i b. b[i := f i]) is buf) = length buf"
  by (induction "is" arbitrary: buf) simp_all

lemma reallocate_simps [simp]:
  "length (d_data (reallocate n d)) = n"
  "d_size (reallocate n d) = d_size d"
  "d_capacity (reallocate n d) = n"
  by (simp_all add: reallocate_def length_fold_update)

lemma calculate_growth_small:
  assumes "3 * d_capacity d < 2 ^ 24"
  shows "calculate_growth d k = max (3 * d_capacity d div 2) (max 16 k)"
  using assms by (simp add: calculate_growth_def scaled_capacity_small INITIAL_CAPACITY_def)





text \<open>
  Claim C6, as the code has it: \<^verbatim>\<open>pop_back()\<close> on an empty dynamic array is guarded by
  \<^verbatim>\<open>if (size_ > 0)\<close>; it returns normally, throws nothing and leaves the array unchanged.
\<close>

theorem da_pop_back_empty_noop:
  assumes "d_size d = 0"
  shows "da_pop_back d = (None, d)"
  using assms by (simp add: da_pop_back_def)

theorem da_pop_back_empty_noop_witness:
  "d_size (da_new :: nat DynamicArray) = 0 \<and> da_pop_back (da_new :: nat DynamicArray) = (None, da_new)"
  using da_pop_back_empty_noop [of "da_new :: nat DynamicArray"] by (simp add: da_new_def)

text \<open>
  Claim C6 as stated fails: on the empty array \<^verbatim>\<open>pop_back()\<close> raises no Underflow
  condition.
\<close>

theorem da_pop_back_empty_no_underflow:
  "fst (da_pop_back (da_new :: nat DynamicArray)) \<noteq> Some Underflow"
  by (simp add: da_pop_back_def da_new_def)


section \<open>Verification of the linked lists\<close>

subsection \<open>Paths\<close>

lemma path_append:
  "path link h p (as @ bs) q = (\<exists>r. path link h p as r \<and> path link h r bs q)"
  by (induction as arbitrary: p) (auto split: option.splits)

lemma path_cong:
  assumes "\<And>a. a \<in> set as \<Longrightarrow> map_option link (h' a) = map_option link (h a)"
  shows "path link h' p as q = path link h p as q"
  using assms
proof (induction as arbitrary: p)
  case Nil
  then show ?case by simp
next
  case (Cons a as)
  have eq: "map_option link (h' a) = map_option link (h a)" using Cons.prems by simp
  have IH: "\<And>p. path link h' p as q = path link h p as q" using Cons by simp
  show ?case
  proof (cases "h a")
    case None
    then have "h' a = None" using eq by simp
    then show ?thesis using None by simp
  next
    case (Some n)
    then obtain n' where n': "h' a = Some n'" "link n' = link n" using eq by auto
    then show ?thesis using Some IH by simp
  qed
qed

lemma path_frame:
  "a \<notin> set as \<Longrightarrow> path link (h(a \<mapsto> n)) p as q = path link h p as q"
  by (rule path_cong) auto

lemma path_last:
  "path link h p as q \<Longrightarrow> as \<noteq> [] \<Longrightarrow> \<exists>n. h (last as) = Some n \<and> link n = q"
  by (induction as arbitrary: p) (auto split: option.splits)

lemma path_hd:
  "path link h p as q \<Longrightarrow> as \<noteq> [] \<Longrightarrow> p = Some (hd as)"
  by (cases as) auto

lemma path_dom:
  "path link h p as q \<Longrightarrow> a \<in> set as \<Longrightarrow> \<exists>n. h a = Some n"
  by (induction as arbitrary: p) (auto split: option.splits)

lemma same_data_refl [simp]: "same_data h h"
  by (simp add: same_data_def)

lemma same_data_trans: "same_data h h1 \<Longrightarrow> same_data h1 h2 \<Longrightarrow> same_data h h2"
  by (simp add: same_data_def)

lemma same_data_update:
  "h a = Some n \<Longrightarrow> n_data n' = n_data n \<Longrightarrow> same_data h (h(a \<mapsto> n'))"
  by (simp add: same_data_def)

lemma same_data_the:
  assumes "same_data h h'"
  shows "n_data (the (h' a)) = n_data (the (h a))"
proof -
  have e: "map_option n_data (h' a) = map_option n_data (h a)"
    using assms by (simp add: same_data_def)
  show ?thesis by (cases "h a"; cases "h' a") (use e in simp_all)
qed

lemma same_data_elems: "same_data h h' \<Longrightarrow> elems h' as = elems h as"
  by (simp add: elems_def same_data_the)

lemma elems_rev: "elems h (rev as) = rev (elems h as)"
  by (simp add: elems_def rev_map)

lemma update_node_Some:
  "h a = Some n \<Longrightarrow> update_node h (Some a) f = Some (h(a \<mapsto> f n))"
  by (simp add: update_node_def)

subsection \<open>reverse on the singly linked list\<close>

lemma sll_reverse_loop_correct:
  assumes "path n_next h current as None" and "distinct as"
  shows "\<exists>h'. sll_reverse_loop h prv current = Some (h', (if as = [] then prv else Some (last as)))
           \<and> (\<forall>x. x \<notin> set as \<longrightarrow> h' x = h x) \<and> same_data h h'
           \<and> (\<forall>q bs. path n_next h prv bs q \<and> set bs \<inter> set as = {}
                \<longrightarrow> path n_next h' (if as = [] then prv else Some (last as)) (rev as @ bs) q)"
  using assms
proof (induction as arbitrary: h prv current)
  case Nil
  then show ?case by (subst sll_reverse_loop.simps) simp
next
  case (Cons a as)
  from Cons.prems obtain n where cur: "current = Some a" and n: "h a = Some n"
    and rest: "path n_next h (n_next n) as None"
    by (auto split: option.splits)
  let ?h1 = "h(a \<mapsto> n\<lparr>n_next := prv\<rparr>)"
  have a_notin: "a \<notin> set as" and dist: "distinct as" using Cons.prems by simp_all
  have rest1: "path n_next ?h1 (n_next n) as None"
    using rest a_notin by (simp add: path_frame)
  from Cons.IH [OF rest1 dist, of "Some a"] obtain h' where
    run: "sll_reverse_loop ?h1 (Some a) (n_next n) = Some (h', (if as = [] then Some a else Some (last as)))"
    and frame: "\<forall>x. x \<notin> set as \<longrightarrow> h' x = ?h1 x"
    and data: "same_data ?h1 h'"
    and paths: "\<forall>q bs. path n_next ?h1 (Some a) bs q \<and> set bs \<inter> set as = {}
                \<longrightarrow> path n_next h' (if as = [] then Some a else Some (last as)) (rev as @ bs) q"
    by blast
  have step: "sll_reverse_loop h prv current = sll_reverse_loop ?h1 (Some a) (n_next n)"
    by (subst sll_reverse_loop.simps) (simp add: cur n update_node_Some)
  have "same_data h ?h1" using n by (rule same_data_update) simp
  then have data': "same_data h h'" using data by (rule same_data_trans)
  have frame': "\<forall>x. x \<notin> set (a # as) \<longrightarrow> h' x = h x" using frame by simp
  have paths': "path n_next h' (Some (last (a # as))) (rev (a # as) @ bs) q"
    if "path n_next h prv bs q" "set bs \<inter> set (a # as) = {}" for q bs
  proof -
    have "a \<notin> set bs" using that(2) by auto
    then have "path n_next ?h1 prv bs q" using that(1) by (simp add: path_frame)
    then have "path n_next ?h1 (Some a) (a # bs) q" by simp
    moreover have "set (a # bs) \<inter> set as = {}" using that(2) a_notin by auto
    ultimately have "path n_next h' (if as = [] then Some a else Some (last as)) (rev as @ a # bs) q"
      using paths by blast
    then show ?thesis by (cases "as = []") (simp_all del: path.simps)
  qed
  have res: "sll_reverse_loop h prv current
      = Some (h', (if a # as = [] then prv else Some (last (a # as))))"
    using step run by (cases "as = []") simp_all
  show ?case
  proof (intro exI [of _ h'] conjI)
    show "sll_reverse_loop h prv current
      = Some (h', (if a # as = [] then prv else Some (last (a # as))))" by (rule res)
    show "\<forall>x. x \<notin> set (a # as) \<longrightarrow> h' x = h x" by (rule frame')
    show "same_data h h'" by (rule data')
    show "\<forall>q bs. path n_next h prv bs q \<and> set bs \<inter> set (a # as) = {}
      \<longrightarrow> path n_next h' (if a # as = [] then prv else Some (last (a # as))) (rev (a # as) @ bs) q"
      using paths' by (simp del: path.simps last.simps rev.simps)
  qed
qed

lemma sll_reverse_short: "sl_size l \<le> 1 \<Longrightarrow> sll_reverse h l = Some (h, l)"
  by (simp add: sll_reverse_def)

lemma sll_reverse_correct:
  assumes "sll h l as"
  shows "\<exists>h' l'. sll_reverse h l = Some (h', l') \<and> sll h' l' (rev as)
           \<and> elems h' (rev as) = rev (elems h as)
           \<and> sl_head l' = sl_tail l \<and> sl_tail l' = sl_head l
           \<and> (length as \<le> 1 \<longrightarrow> h' = h \<and> l' = l)"
proof (cases "length as \<le> 1")
  case True
  then have r: "rev as = as" by (cases as) (auto simp: Suc_le_eq)
  have ht: "sl_head l = sl_tail l"
    using assms True by (cases as) (auto simp: sll_def split: option.splits)
  have run: "sll_reverse h l = Some (h, l)"
    using assms True by (simp add: sll_reverse_short sll_def)
  have "sll h l (rev as)" using assms r by simp
  moreover have "elems h (rev as) = rev (elems h as)" by (rule elems_rev)
  ultimately show ?thesis using run ht by simp
next
  case False
  then have ne: "as \<noteq> []" by auto
  have wf: "distinct as" "path n_next h (sl_head l) as None" "sl_tail l = Some (last as)"
    "sl_size l = length as"
    using assms ne by (simp_all add: sll_def)
  from sll_reverse_loop_correct [OF wf(2) wf(1), of None] ne obtain h' where
    run: "sll_reverse_loop h None (sl_head l) = Some (h', Some (last as))"
    and data: "same_data h h'"
    and paths: "\<forall>q bs. path n_next h None bs q \<and> set bs \<inter> set as = {}
                \<longrightarrow> path n_next h' (Some (last as)) (rev as @ bs) q"
    by auto
  have p: "path n_next h' (Some (last as)) (rev as) None"
    using paths [rule_format, of "[]" None] by simp
  let ?l' = "l\<lparr>sl_tail := sl_head l, sl_head := Some (last as)\<rparr>"
  have res: "sll_reverse h l = Some (h', ?l')"
    using False wf(4) run by (simp add: sll_reverse_def)
  have hd: "sl_head l = Some (hd as)" using wf(2) ne by (rule path_hd)
  have "sll h' ?l' (rev as)"
    using wf p ne hd by (simp add: sll_def last_rev)
  moreover have "elems h' (rev as) = rev (elems h as)"
    using same_data_elems [OF data] by (simp add: elems_rev)
  ultimately show ?thesis using res wf(3) False by simp
qed

subsection \<open>reverse on the doubly linked list\<close>

lemma dll_reverse_loop_correct:
  assumes "path n_next h current as None" and "distinct as"
  shows "dll_reverse_loop h current
           = Some (\<lambda>x. if x \<in> set as then map_option swap_links (h x) else h x)"
  using assms
proof (induction as arbitrary: h current)
  case Nil
  then show ?case by (subst dll_reverse_loop.simps) simp
next
  case (Cons a as)
  from Cons.prems obtain n where cur: "current = Some a" and n: "h a = Some n"
    and rest: "path n_next h (n_next n) as None"
    by (auto split: option.splits)
  let ?h1 = "h(a \<mapsto> swap_links n)"
  have a_notin: "a \<notin> set as" and dist: "distinct as" using Cons.prems by simp_all
  have rest1: "path n_next ?h1 (n_next n) as None"
    using rest a_notin by (simp add: path_frame)
  have step: "dll_reverse_loop h current = dll_reverse_loop ?h1 (n_next n)"
    by (subst dll_reverse_loop.simps) (simp add: cur n swap_links_def Let_def)
  have "(\<lambda>x. if x \<in> set as then map_option swap_links (?h1 x) else ?h1 x)
        = (\<lambda>x. if x \<in> set (a # as) then map_option swap_links (h x) else h x)"
    using a_notin n by (auto simp: fun_eq_iff)
  then show ?case using step Cons.IH [OF rest1 dist] by simp
qed

lemma path_swap_next:
  "set as \<subseteq> S \<Longrightarrow>
   path n_next (\<lambda>x. if x \<in> S then map_option swap_links (h x) else h x) p as q
     = path n_prev h p as q"
  by (induction as arbitrary: p) (auto simp: swap_links_def split: option.splits)

lemma path_swap_prev:
  "set as \<subseteq> S \<Longrightarrow>
   path n_prev (\<lambda>x. if x \<in> S then map_option swap_links (h x) else h x) p as q
     = path n_next h p as q"
  by (induction as arbitrary: p) (auto simp: swap_links_def split: option.splits)

lemma same_data_swap:
  "same_data h (\<lambda>x. if x \<in> S then map_option swap_links (h x) else h x)"
  by (auto simp: same_data_def swap_links_def option.map_comp comp_def intro!: option.map_cong)

lemma dll_reverse_short: "dl_size l \<le> 1 \<Longrightarrow> dll_reverse h l = Some (h, l)"
  by (simp add: dll_reverse_def)

lemma dll_head_tail:
  assumes "dll h l as"
  shows "dl_head l = (if as = [] then None else Some (hd as))"
    and "dl_tail l = (if as = [] then None else Some (last as))"
proof -
  have p: "path n_next h (dl_head l) as None" "path n_prev h (dl_tail l) (rev as) None"
    using assms by (simp_all add: dll_def)
  show "dl_head l = (if as = [] then None else Some (hd as))"
    using p(1) path_hd [OF p(1)] by (cases as) simp_all
  show "dl_tail l = (if as = [] then None else Some (last as))"
    using p(2) path_hd [OF p(2)] by (cases "as = []") (simp_all add: hd_rev)
qed

lemma dll_reverse_correct:
  assumes "dll h l as"
  shows "\<exists>h' l'. dll_reverse h l = Some (h', l') \<and> dll h' l' (rev as)
           \<and> elems h' (rev as) = rev (elems h as)
           \<and> dl_head l' = dl_tail l \<and> dl_tail l' = dl_head l
           \<and> (length as \<le> 1 \<longrightarrow> h' = h \<and> l' = l)"
proof (cases "length as \<le> 1")
  case True
  then have r: "rev as = as" by (cases as) (auto simp: Suc_le_eq)
  have ht: "dl_head l = dl_tail l"
    using dll_head_tail [OF assms] True by (cases as) auto
  have run: "dll_reverse h l = Some (h, l)"
    using assms True by (simp add: dll_reverse_short dll_def)
  have "dll h l (rev as)" using assms r by simp
  moreover have "elems h (rev as) = rev (elems h as)" by (rule elems_rev)
  ultimately show ?thesis using run ht by simp
next
  case False
  have wf: "distinct as" "path n_next h (dl_head l) as None"
    "path n_prev h (dl_tail l) (rev as) None" "dl_size l = length as"
    using assms by (simp_all add: dll_def)
  let ?h' = "\<lambda>x. if x \<in> set as then map_option swap_links (h x) else h x"
  let ?l' = "l\<lparr>dl_head := dl_tail l, dl_tail := dl_head l\<rparr>"
  have res: "dll_reverse h l = Some (?h', ?l')"
    using False wf(4) dll_reverse_loop_correct [OF wf(2) wf(1)] by (simp add: dll_reverse_def)
  have "path n_next ?h' (dl_tail l) (rev as) None"
    using wf(3) by (subst path_swap_next) simp_all
  moreover have "path n_prev ?h' (dl_head l) as None"
    using wf(2) by (subst path_swap_prev) simp_all
  ultimately have "dll ?h' ?l' (rev as)" using wf(1,4) by (simp add: dll_def)
  moreover have "elems ?h' (rev as) = rev (elems h as)"
    using same_data_elems [OF same_data_swap [where h = h and S = "set as"], of "rev as"]
    by (simp add: elems_rev)
  ultimately show ?thesis using res False by auto
qed


subsection \<open>Merging and merge sort on lists\<close>

declare pmsort.simps [simp del]

lemma mset_pmerge: "mset (pmerge c xs ys) = mset xs + mset ys"
  by (induction c xs ys rule: pmerge.induct) simp_all

lemma set_pmerge: "set (pmerge c xs ys) = set xs \<union> set ys"
  by (induction c xs ys rule: pmerge.induct) auto

lemma sorted_pmerge:
  assumes "\<And>x y. c x y \<or> c y x" and "\<And>x y z. c x y \<Longrightarrow> c y z \<Longrightarrow> c x z"
  shows "sorted_wrt c xs \<Longrightarrow> sorted_wrt c ys \<Longrightarrow> sorted_wrt c (pmerge c xs ys)"
  using assms
proof (induction c xs ys rule: pmerge.induct)
  case (3 c x xs y ys)
  note tot = "3.prems"(3) and trans = "3.prems"(4)
  have sx: "sorted_wrt c xs" "\<forall>z\<in>set xs. c x z" using "3.prems"(1) by simp_all
  have sy: "sorted_wrt c ys" "\<forall>z\<in>set ys. c y z" using "3.prems"(2) by simp_all
  show ?case
  proof (cases "c x y")
    case True
    have "c x z" if "z \<in> set ys" for z
      using trans [OF True] sy(2) that by blast
    then have all: "\<forall>z \<in> set (pmerge c xs (y # ys)). c x z"
      using sx(2) True by (simp add: set_pmerge) blast
    have "sorted_wrt c (pmerge c xs (y # ys))"
      using "3.IH"(1) [OF True sx(1) "3.prems"(2) tot trans] .
    then show ?thesis using True all by simp
  next
    case False
    then have yx: "c y x" using tot by blast
    have "c y z" if "z \<in> set xs" for z
      using trans [OF yx] sx(2) that by blast
    then have all: "\<forall>z \<in> set (pmerge c (x # xs) ys). c y z"
      using sy(2) yx by (simp add: set_pmerge) blast
    have "sorted_wrt c (pmerge c (x # xs) ys)"
      using "3.IH"(2) [OF False "3.prems"(1) sy(1) tot trans] .
    then show ?thesis using False all by simp
  qed
qed simp_all

lemma filter_pmerge:
  assumes "\<And>x y z. c x y \<Longrightarrow> c y z \<Longrightarrow> c x z" and "\<And>x y. P x \<Longrightarrow> P y \<Longrightarrow> c x y"
  shows "sorted_wrt c xs \<Longrightarrow> filter P (pmerge c xs ys) = filter P xs @ filter P ys"
  using assms
proof (induction c xs ys rule: pmerge.induct)
  case (3 c x xs y ys)
  note trans = "3.prems"(2) and cls = "3.prems"(3)
  have sx: "sorted_wrt c xs" "\<forall>z\<in>set xs. c x z" using "3.prems"(1) by simp_all
  show ?case
  proof (cases "c x y")
    case True
    have "filter P (pmerge c xs (y # ys)) = filter P xs @ filter P (y # ys)"
      using "3.IH"(1) [OF True sx(1) trans cls] .
    then show ?thesis using True by simp
  next
    case False
    have IH: "filter P (pmerge c (x # xs) ys) = filter P (x # xs) @ filter P ys"
      using "3.IH"(2) [OF False "3.prems"(1) trans cls] .
    show ?thesis
    proof (cases "P y")
      case True
      have "\<not> P z" if "z \<in> set (x # xs)" for z
      proof
        assume "P z"
        then have zy: "c z y" using True cls by blast
        have "c x z \<or> z = x" using that sx(2) by auto
        then have "c x y" using zy trans by blast
        then show False using False by simp
      qed
      then have "filter P (x # xs) = []" by (simp add: filter_empty_conv del: filter.simps)
      then show ?thesis using IH False True by simp
    next
      case False
      then show ?thesis using IH \<open>\<not> c x y\<close> by simp
    qed
  qed
qed simp_all

lemma mset_pmsort: "mset (pmsort c xs) = mset xs"
proof (induction c xs rule: pmsort.induct)
  case (1 c xs)
  show ?case
  proof (cases "length xs \<le> 1")
    case True
    then show ?thesis by (subst pmsort.simps) simp
  next
    case False
    have "mset (pmsort c xs) = mset (take ((length xs + 1) div 2) xs) + mset (drop ((length xs + 1) div 2) xs)"
      using 1 False by (subst pmsort.simps) (simp add: mset_pmerge)
    also have "\<dots> = mset xs"
      by (metis append_take_drop_id mset_append)
    finally show ?thesis .
  qed
qed

lemma set_pmsort: "set (pmsort c xs) = set xs"
  using mset_pmsort [of c xs] by (metis set_mset_mset)

lemma distinct_pmsort: "distinct (pmsort c xs) = distinct xs"
  using mset_pmsort [of c xs] by (metis mset_eq_imp_distinct_iff)

lemma length_pmsort: "length (pmsort c xs) = length xs"
  using mset_pmsort [of c xs] by (metis size_mset)

lemma sorted_pmsort:
  assumes "\<And>x y. c x y \<or> c y x" and "\<And>x y z. c x y \<Longrightarrow> c y z \<Longrightarrow> c x z"
  shows "sorted_wrt c (pmsort c xs)"
  using assms
proof (induction c xs rule: pmsort.induct)
  case (1 c xs)
  show ?case
  proof (cases "length xs \<le> 1")
    case True
    then have "xs = [] \<or> (\<exists>x. xs = [x])" by (cases xs) auto
    then show ?thesis by (subst pmsort.simps) auto
  next
    case False
    then show ?thesis
      using 1 by (subst pmsort.simps) (simp add: sorted_pmerge)
  qed
qed

lemma filter_pmsort:
  assumes "\<And>x y. c x y \<or> c y x" and "\<And>x y z. c x y \<Longrightarrow> c y z \<Longrightarrow> c x z"
    and "\<And>x y. P x \<Longrightarrow> P y \<Longrightarrow> c x y"
  shows "filter P (pmsort c xs) = filter P xs"
  using assms
proof (induction c xs rule: pmsort.induct)
  case (1 c xs)
  show ?case
  proof (cases "length xs \<le> 1")
    case True
    then show ?thesis by (subst pmsort.simps) simp
  next
    case False
    let ?k = "(length xs + 1) div 2"
    have s: "sorted_wrt c (pmsort c (take ?k xs))"
      using "1.prems"(1,2) by (rule sorted_pmsort)
    have "filter P (pmsort c xs)
        = filter P (pmsort c (take ?k xs)) @ filter P (pmsort c (drop ?k xs))"
      using False "1.prems"(2,3) s by (subst pmsort.simps) (simp add: filter_pmerge)
    also have "\<dots> = filter P (take ?k xs) @ filter P (drop ?k xs)"
      using 1 False by simp
    also have "\<dots> = filter P xs"
      by (metis append_take_drop_id filter_append)
    finally show ?thesis .
  qed
qed

subsection \<open>Walking along next\<close>

lemma deref_Some [simp]: "deref h (Some a) = h a"
  by (simp add: deref_def)

lemma deref_None [simp]: "deref h None = None"
  by (simp add: deref_def)

lemma walk_to_last_correct:
  assumes "path n_next h p as None" and "as \<noteq> []"
  shows "walk_to_last h p = Some (Some (last as))"
  using assms
proof (induction as arbitrary: p)
  case Nil
  then show ?case by simp
next
  case (Cons a as)
  from Cons.prems obtain n where p: "p = Some a" and n: "h a = Some n"
    and rest: "path n_next h (n_next n) as None"
    by (auto split: option.splits)
  show ?case
  proof (cases as)
    case Nil
    then have "n_next n = None" using rest by simp
    then show ?thesis using Nil p n by (subst walk_to_last.simps) simp
  next
    case (Cons b bs)
    then have nx: "n_next n = Some b" using rest by simp
    have "walk_to_last h p = walk_to_last h (n_next n)"
      using p n nx by (subst walk_to_last.simps) simp
    then show ?thesis using Cons.IH [OF rest] Cons by simp
  qed
qed

lemma find_middle_correct:
  assumes "path n_next h slow ss None" and "path n_next h fast fs None"
    and "length fs div 2 < length ss"
  shows "find_middle h slow fast = Some (Some (ss ! (length fs div 2)))"
  using assms
proof (induction fs arbitrary: slow fast ss rule: induct_list012)
  case 1
  then have "fast = None" by simp
  moreover have "slow = Some (ss ! 0)" using 1 by (cases ss) auto
  ultimately show ?case by (subst find_middle.simps) simp
next
  case (2 f)
  then obtain fn where "fast = Some f" "h f = Some fn" "n_next fn = None"
    by (auto split: option.splits)
  moreover have "slow = Some (ss ! 0)" using 2 by (cases ss) auto
  ultimately show ?case by (subst find_middle.simps) simp
next
  case (3 f g fs)
  from "3.prems"(2) obtain fn gn where f: "fast = Some f" "h f = Some fn" "n_next fn = Some g"
    and g: "h g = Some gn" and rest: "path n_next h (n_next gn) fs None"
    by (auto split: option.splits)
  from "3.prems"(1,3) obtain s ss' sn where ss: "ss = s # ss'" and s: "slow = Some s" "h s = Some sn"
    and srest: "path n_next h (n_next sn) ss' None"
    by (cases ss) (auto split: option.splits)
  have len: "length fs div 2 < length ss'" using "3.prems"(3) ss by simp
  have "find_middle h slow fast = find_middle h (n_next sn) (n_next gn)"
    using f g s by (subst find_middle.simps) simp
  also have "\<dots> = Some (Some (ss' ! (length fs div 2)))"
    using srest rest len by (rule "3.IH"(1))
  finally show ?case using ss by simp
qed

lemma path_set_last:
  assumes "path link h p as q" and "distinct as" and "as \<noteq> []"
    and "h' = h(last as \<mapsto> n')" and "link n' = q'"
  shows "path link h' p as q'"
  using assms
proof (induction as arbitrary: p)
  case Nil
  then show ?case by simp
next
  case (Cons a as)
  from Cons.prems(1) obtain n where p: "p = Some a" and n: "h a = Some n"
    and rest: "path link h (link n) as q"
    by (auto split: option.splits)
  show ?case
  proof (cases "as = []")
    case True
    then show ?thesis using p Cons.prems(4,5) by simp
  next
    case False
    then have "last (a # as) = last as" by simp
    moreover have "a \<noteq> last as" using Cons.prems(2) False by auto
    moreover have "path link h' (link n) as q'"
      using Cons.IH [OF rest] Cons.prems(2,4,5) False by simp
    ultimately show ?thesis using p n Cons.prems(4) by simp
  qed
qed

lemma by_data_same: "same_data h h' \<Longrightarrow> by_data le h' = by_data le h"
  by (simp add: by_data_def fun_eq_iff same_data_the)


lemma linked_frame:
  "x \<notin> set zs \<Longrightarrow> x \<noteq> nx \<Longrightarrow> linked sp h zs nx x = h x"
  by (auto simp: linked_def)

lemma linked_same_data:
  assumes "keeps_links sp" and "h nx = Some nn" and "zs \<noteq> [] \<longrightarrow> h (last zs) \<noteq> None"
  shows "same_data h (linked sp h zs nx)"
  using assms by (auto simp: same_data_def linked_def keeps_links_def)

lemma linked_nx:
  assumes "keeps_links sp" and "h nx = Some nn" and "nx \<notin> set zs"
  shows "\<exists>n'. linked sp h zs nx nx = Some n' \<and> n_next n' = n_next nn"
  using assms by (auto simp: linked_def keeps_links_def)

lemma linked_prefix:
  assumes "keeps_links sp" and "merged_prefix h result tail zs" and "h nx = Some nn"
    and "nx \<notin> set zs" and "distinct zs"
  shows "merged_prefix (linked sp h zs nx) (if zs = [] then Some nx else result) (Some nx) (zs @ [nx])"
proof (cases "zs = []")
  case True
  then show ?thesis using assms by (simp add: merged_prefix_def linked_def)
next
  case False
  let ?t = "last zs"
  from assms(2) False obtain tn where t: "tail = Some ?t" "h ?t = Some tn"
    and p: "path n_next h result (butlast zs) (Some ?t)"
    by (auto simp: merged_prefix_def)
  let ?h1 = "h(?t \<mapsto> tn\<lparr>n_next := Some nx\<rparr>)"
  have zs: "zs = butlast zs @ [?t]" using False by simp
  have "?t \<notin> set (butlast zs)" using assms(5) False
    by (metis distinct_butlast append_butlast_last_id distinct_append disjoint_iff list.set_intros(1))
  then have "path n_next ?h1 result (butlast zs) (Some ?t)" using p by (simp add: path_frame)
  moreover have "path n_next ?h1 (Some ?t) [?t] (Some nx)" by simp
  ultimately have "path n_next ?h1 result (butlast zs @ [?t]) (Some nx)"
    unfolding path_append by blast
  then have "path n_next ?h1 result zs (Some nx)" using zs by simp
  then have "path n_next (?h1(nx \<mapsto> sp nn (Some ?t))) result zs (Some nx)"
    using assms(4) by (simp add: path_frame)
  then show ?thesis using False t assms(3) by (simp add: merged_prefix_def linked_def)
qed

lemma linked_Q:
  assumes "head_mark sp Q" and "h nx = Some nn" and "nx \<notin> set zs"
    and "zs \<noteq> [] \<longrightarrow> Q (the (h (hd zs)))"
  shows "Q (the (linked sp h zs nx (hd (zs @ [nx]))))"
proof (cases "zs = []")
  case True
  then show ?thesis using assms by (simp add: linked_def head_mark_def)
next
  case False
  then have "hd zs \<noteq> nx" using assms(3) by auto
  then show ?thesis using False assms by (auto simp: linked_def head_mark_def)
qed

lemma linked_run:
  assumes "merged_prefix h result tail zs" and "h nx = Some nn" and "nx \<notin> set zs"
  shows "(case result of
            None \<Rightarrow> Some (h, Some nx)
          | Some r \<Rightarrow> do {
              h' \<leftarrow> update_node h tail (\<lambda>n. n\<lparr>n_next := Some nx\<rparr>);
              Some (h', result)
            }) \<bind> (\<lambda>(h1, result'). update_node h1 (Some nx) (\<lambda>n. sp n tail) \<bind> (\<lambda>h2. K h2 result'))
         = K (linked sp h zs nx) (if zs = [] then Some nx else result)"
proof (cases "zs = []")
  case True
  then show ?thesis using assms by (simp add: merged_prefix_def linked_def update_node_def)
next
  case False
  let ?t = "last zs"
  from assms(1) False obtain tn where t: "tail = Some ?t" "h ?t = Some tn"
    and p: "path n_next h result (butlast zs) (Some ?t)"
    by (auto simp: merged_prefix_def)
  have "result \<noteq> None"
  proof (cases "butlast zs")
    case Nil
    then show ?thesis using p by simp
  next
    case (Cons a as)
    then show ?thesis using p by simp
  qed
  then obtain r where r: "result = Some r" by auto
  have ne: "nx \<noteq> ?t" using assms(3) False by auto
  show ?thesis
    using False t r ne assms(2) by (simp add: linked_def update_node_def)
qed


lemma path_linked:
  assumes "path n_next h p as q" and "set as \<inter> set zs = {}" and "nx \<notin> set as"
  shows "path n_next (linked sp h zs nx) p as q"
proof -
  have "linked sp h zs nx a = h a" if "a \<in> set as" for a
    using that assms(2,3) by (intro linked_frame) auto
  then have "path n_next (linked sp h zs nx) p as q = path n_next h p as q"
    by (intro path_cong) simp
  then show ?thesis using assms(1) by simp
qed

lemma merge_loop_correct:
  assumes "keeps_links sp" and "head_mark sp Q"
    and "by_data le h = c"
    and "path n_next h first as None" and "path n_next h second bs None"
    and "distinct (zs @ as @ bs)" and "merged_prefix h result tail zs"
    and "zs \<noteq> [] \<longrightarrow> Q (the (h (hd zs)))"
  shows "\<exists>h' zs' as' bs' first' second' result' tail'.
           merge_loop sp le h first second result tail = Some (h', first', second', result', tail')
         \<and> (as' = [] \<or> bs' = []) \<and> zs' @ as' @ bs' = zs @ pmerge c as bs
         \<and> path n_next h' first' as' None \<and> path n_next h' second' bs' None
         \<and> merged_prefix h' result' tail' zs'
         \<and> same_data h h' \<and> (\<forall>x. x \<notin> set (zs @ as @ bs) \<longrightarrow> h' x = h x)
         \<and> (zs' \<noteq> [] \<longrightarrow> Q (the (h' (hd zs'))))
         \<and> (zs \<noteq> [] \<or> (as \<noteq> [] \<and> bs \<noteq> []) \<longrightarrow> zs' \<noteq> [])
         \<and> (as \<noteq> [] \<or> bs \<noteq> [] \<longrightarrow> as' \<noteq> [] \<or> bs' \<noteq> [])"
  using assms(3-)
proof (induction c as bs arbitrary: h zs first second result tail rule: pmerge.induct)
  case (1 c bs)
  then have "first = None" by simp
  then have "merge_loop sp le h first second result tail = Some (h, first, second, result, tail)"
    by (subst merge_loop.simps) simp
  then show ?case
    by (rule_tac x = h in exI, rule_tac x = zs in exI, rule_tac x = "[]" in exI,
        rule_tac x = bs in exI)
       (use 1 in auto)
next
  case (2 c x xs)
  then have "second = None" by simp
  then have "merge_loop sp le h first second result tail = Some (h, first, second, result, tail)"
    by (subst merge_loop.simps) (simp split: option.splits)
  then show ?case
    by (rule_tac x = h in exI, rule_tac x = zs in exI, rule_tac x = "x # xs" in exI,
        rule_tac x = "[]" in exI)
       (use 2 in auto)
next
  case (3 c x xs y ys)
  note c = "3.prems"(1) and dist = "3.prems"(4) and pre = "3.prems"(5) and q = "3.prems"(6)
  from "3.prems"(2) obtain fn where f: "first = Some x" "h x = Some fn"
    and frest: "path n_next h (n_next fn) xs None"
    by (auto split: option.splits)
  from "3.prems"(3) obtain sn where s: "second = Some y" "h y = Some sn"
    and srest: "path n_next h (n_next sn) ys None"
    by (auto split: option.splits)
  have cxy: "c x y = le (n_data fn) (n_data sn)"
    using c f s by (auto simp: by_data_def)
  have last_dom: "zs \<noteq> [] \<longrightarrow> h (last zs) \<noteq> None"
    using pre by (simp add: merged_prefix_def)
  show ?case
  proof (cases "c x y")
    case True
    let ?h2 = "linked sp h zs x"
    let ?r = "if zs = [] then Some x else result"
    have x_notin: "x \<notin> set zs" using dist by auto
    have step: "merge_loop sp le h first second result tail
        = merge_loop sp le ?h2 (n_next fn) second ?r (Some x)"
      using True cxy f s
        linked_run [OF pre f(2) x_notin,
          where sp = sp and K = "\<lambda>h2 r'. merge_loop sp le h2 (n_next fn) (Some y) r' (Some x)"]
      by (subst merge_loop.simps) simp
    have sd: "same_data h ?h2" using "assms"(1) f(2) last_dom by (rule linked_same_data)
    have c2: "by_data le ?h2 = c" using by_data_same [OF sd] c by simp
    have p1: "path n_next ?h2 (n_next fn) xs None"
      using frest dist by (intro path_linked) auto
    have p2: "path n_next ?h2 second (y # ys) None"
      using "3.prems"(3) dist by (intro path_linked) auto
    have d2: "distinct ((zs @ [x]) @ xs @ y # ys)" using dist by simp
    have pre2: "merged_prefix ?h2 ?r (Some x) (zs @ [x])"
      using assms(1) pre f(2) x_notin dist by (intro linked_prefix) auto
    have q2: "zs @ [x] \<noteq> [] \<longrightarrow> Q (the (?h2 (hd (zs @ [x]))))"
      using linked_Q [OF assms(2) f(2) x_notin q] by simp
    from "3.IH"(1) [OF True c2 p1 p2 d2 pre2 q2]
    obtain h' zs' as' bs' first' second' result' tail' where
      run: "merge_loop sp le ?h2 (n_next fn) second ?r (Some x)
              = Some (h', first', second', result', tail')"
      and one: "as' = [] \<or> bs' = []"
      and eq: "zs' @ as' @ bs' = (zs @ [x]) @ pmerge c xs (y # ys)"
      and ps: "path n_next h' first' as' None" "path n_next h' second' bs' None"
      and pre': "merged_prefix h' result' tail' zs'"
      and sd': "same_data ?h2 h'"
      and fr': "\<forall>a. a \<notin> set ((zs @ [x]) @ xs @ y # ys) \<longrightarrow> h' a = ?h2 a"
      and q': "zs' \<noteq> [] \<longrightarrow> Q (the (h' (hd zs')))"
      and ne': "zs @ [x] \<noteq> [] \<or> (xs \<noteq> [] \<and> y # ys \<noteq> []) \<longrightarrow> zs' \<noteq> []"
      and left': "xs \<noteq> [] \<or> y # ys \<noteq> [] \<longrightarrow> as' \<noteq> [] \<or> bs' \<noteq> []"
      by blast
    have eq2: "zs' @ as' @ bs' = zs @ pmerge c (x # xs) (y # ys)" using eq True by simp
    have sd2: "same_data h h'" using sd sd' by (rule same_data_trans)
    have fr2: "\<forall>a. a \<notin> set (zs @ (x # xs) @ y # ys) \<longrightarrow> h' a = h a"
      using fr' by (auto simp: linked_frame)
    have ne2: "zs' \<noteq> []" using ne' by simp
    have left2: "as' \<noteq> [] \<or> bs' \<noteq> []" using left' by simp
    show ?thesis
      unfolding step run
      by (rule exI [of _ h'], rule exI [of _ zs'], rule exI [of _ as'], rule exI [of _ bs'],
          rule exI [of _ first'], rule exI [of _ second'], rule exI [of _ result'],
          rule exI [of _ tail'])
         (use one eq2 ps pre' sd2 fr2 q' ne2 left2 in \<open>simp del: path.simps\<close>)
  next
    case False
    let ?h2 = "linked sp h zs y"
    let ?r = "if zs = [] then Some y else result"
    have y_notin: "y \<notin> set zs" using dist by auto
    have step: "merge_loop sp le h first second result tail
        = merge_loop sp le ?h2 first (n_next sn) ?r (Some y)"
      using False cxy f s
        linked_run [OF pre s(2) y_notin,
          where sp = sp and K = "\<lambda>h2 r'. merge_loop sp le h2 (Some x) (n_next sn) r' (Some y)"]
      by (subst merge_loop.simps) simp
    have sd: "same_data h ?h2" using "assms"(1) s(2) last_dom by (rule linked_same_data)
    have c2: "by_data le ?h2 = c" using by_data_same [OF sd] c by simp
    have p1: "path n_next ?h2 first (x # xs) None"
      using "3.prems"(2) dist by (intro path_linked) auto
    have p2: "path n_next ?h2 (n_next sn) ys None"
      using srest dist by (intro path_linked) auto
    have d2: "distinct ((zs @ [y]) @ (x # xs) @ ys)" using dist by auto
    have pre2: "merged_prefix ?h2 ?r (Some y) (zs @ [y])"
      using assms(1) pre s(2) y_notin dist by (intro linked_prefix) auto
    have q2: "zs @ [y] \<noteq> [] \<longrightarrow> Q (the (?h2 (hd (zs @ [y]))))"
      using linked_Q [OF assms(2) s(2) y_notin q] by simp
    from "3.IH"(2) [OF False c2 p1 p2 d2 pre2 q2]
    obtain h' zs' as' bs' first' second' result' tail' where
      run: "merge_loop sp le ?h2 first (n_next sn) ?r (Some y)
              = Some (h', first', second', result', tail')"
      and one: "as' = [] \<or> bs' = []"
      and eq: "zs' @ as' @ bs' = (zs @ [y]) @ pmerge c (x # xs) ys"
      and ps: "path n_next h' first' as' None" "path n_next h' second' bs' None"
      and pre': "merged_prefix h' result' tail' zs'"
      and sd': "same_data ?h2 h'"
      and fr': "\<forall>a. a \<notin> set ((zs @ [y]) @ (x # xs) @ ys) \<longrightarrow> h' a = ?h2 a"
      and q': "zs' \<noteq> [] \<longrightarrow> Q (the (h' (hd zs')))"
      and ne': "zs @ [y] \<noteq> [] \<or> (x # xs \<noteq> [] \<and> ys \<noteq> []) \<longrightarrow> zs' \<noteq> []"
      and left': "x # xs \<noteq> [] \<or> ys \<noteq> [] \<longrightarrow> as' \<noteq> [] \<or> bs' \<noteq> []"
      by blast
    have eq2: "zs' @ as' @ bs' = zs @ pmerge c (x # xs) (y # ys)" using eq False by simp
    have sd2: "same_data h h'" using sd sd' by (rule same_data_trans)
    have fr2: "\<forall>a. a \<notin> set (zs @ (x # xs) @ y # ys) \<longrightarrow> h' a = h a"
      using fr' by (auto simp: linked_frame)
    have ne2: "zs' \<noteq> []" using ne' by simp
    have left2: "as' \<noteq> [] \<or> bs' \<noteq> []" using left' by simp
    show ?thesis
      unfolding step run
      by (rule exI [of _ h'], rule exI [of _ zs'], rule exI [of _ as'], rule exI [of _ bs'],
          rule exI [of _ first'], rule exI [of _ second'], rule exI [of _ result'],
          rule exI [of _ tail'])
         (use one eq2 ps pre' sd2 fr2 q' ne2 left2 in \<open>simp del: path.simps\<close>)
  qed
qed

lemma append_rest_None [simp]: "append_rest sp h tail None = Some (h, tail)"
  by (simp add: append_rest_def)

lemma append_rest_correct:
  assumes "keeps_links sp" and "head_mark sp Q"
    and "merged_prefix h result tail zs" and "zs \<noteq> []"
    and "path n_next h rest rs None" and "rs \<noteq> []" and "distinct (zs @ rs)"
    and "Q (the (h (hd zs)))"
  shows "\<exists>h'. append_rest sp h tail rest = Some (h', Some (last rs))
           \<and> path n_next h' result (zs @ rs) None
           \<and> same_data h h' \<and> (\<forall>x. x \<notin> set (zs @ rs) \<longrightarrow> h' x = h x)
           \<and> Q (the (h' (hd zs)))"
proof -
  from assms(5,6) obtain r rs' rn where rs: "rs = r # rs'" and r: "rest = Some r" "h r = Some rn"
    and rrest: "path n_next h (n_next rn) rs' None"
    by (cases rs) (auto split: option.splits)
  let ?h2 = "linked sp h zs r"
  let ?t = "last zs"
  have r_notin: "r \<notin> set zs" using assms(7) rs by auto
  have dz: "distinct zs" using assms(7) by simp
  from assms(3,4) obtain tn where t: "tail = Some ?t" "h ?t = Some tn"
    by (auto simp: merged_prefix_def)
  have ne: "r \<noteq> ?t" using r_notin assms(4) by auto
  have upd: "update_node h tail (\<lambda>n. n\<lparr>n_next := rest\<rparr>) \<bind> (\<lambda>h1. update_node h1 rest (\<lambda>n. sp n tail) \<bind> K)
      = K ?h2" for K
    using t r ne assms(4) by (simp add: update_node_def linked_def)
  have pre2: "merged_prefix ?h2 result (Some r) (zs @ [r])"
    using linked_prefix [OF assms(1) assms(3) r(2) r_notin dz] assms(4) by simp
  then have pz: "path n_next ?h2 result zs (Some r)" by (simp add: merged_prefix_def)
  obtain n' where n': "?h2 r = Some n'" "n_next n' = n_next rn"
    using linked_nx [where h = h and nx = r, OF assms(1) r(2) r_notin] by blast
  have "path n_next ?h2 (n_next rn) rs' None"
    using rrest assms(7) rs by (intro path_linked) auto
  then have pr: "path n_next ?h2 (Some r) rs None" using n' rs by simp
  have pall: "path n_next ?h2 result (zs @ rs) None"
    unfolding path_append using pz pr by blast
  have "path n_next ?h2 result (butlast zs @ ?t # rs) None"
    using pall assms(4) by (metis append.assoc append_Cons append_Nil append_butlast_last_id)
  then have "path n_next ?h2 (Some ?t) (?t # rs) None"
    unfolding path_append by auto
  then have walk: "walk_to_last ?h2 tail = Some (Some (last rs))"
    using walk_to_last_correct [of ?h2 "Some ?t" "?t # rs"] t assms(6) by simp
  have run: "append_rest sp h tail rest = Some (?h2, Some (last rs))"
    using r upd [of "\<lambda>h2. walk_to_last h2 tail \<bind> (\<lambda>tail'. Some (h2, tail'))"] walk
    by (simp add: append_rest_def)
  have sd: "same_data h ?h2"
    using assms(1) r(2) t(2) by (intro linked_same_data) auto
  have fr: "\<forall>x. x \<notin> set (zs @ rs) \<longrightarrow> ?h2 x = h x"
    using rs by (auto simp: linked_frame)
  have "Q (the (?h2 (hd (zs @ [r]))))"
    using linked_Q [where h = h and nx = r, OF assms(2) r(2) r_notin] assms(8) by simp
  then have "Q (the (?h2 (hd zs)))" using assms(4) by simp
  then show ?thesis using run pall sd fr by blast
qed

lemma merge_sorted_lists_correct:
  assumes "keeps_links sp" and "head_mark sp Q"
    and "path n_next h first as None" and "path n_next h second bs None"
    and "distinct (as @ bs)" and "as \<noteq> []" and "bs \<noteq> []"
  shows "\<exists>h' tail'. merge_sorted_lists sp le h first second
             = Some (h', Some (hd (pmerge (by_data le h) as bs)), tail')
           \<and> path n_next h' (Some (hd (pmerge (by_data le h) as bs))) (pmerge (by_data le h) as bs) None
           \<and> same_data h h' \<and> (\<forall>x. x \<notin> set (as @ bs) \<longrightarrow> h' x = h x)
           \<and> Q (the (h' (hd (pmerge (by_data le h) as bs))))"
proof -
  let ?c = "by_data le h"
  let ?M = "pmerge ?c as bs"
  obtain fa sa where fs: "first = Some fa" "second = Some sa"
    using assms(3,4,6,7) by (cases as; cases bs) auto
  have pre0: "merged_prefix h None None []" by (simp add: merged_prefix_def)
  have d0: "distinct ([] @ as @ bs)" using assms(5) by simp
  have q0: "[] \<noteq> [] \<longrightarrow> Q (the (h (hd [])))" by simp
  from merge_loop_correct [OF assms(1,2) refl assms(3,4) d0 pre0 q0, of le]
  obtain h1 zs' as' bs' first' second' result' tail' where
    run: "merge_loop sp le h first second None None = Some (h1, first', second', result', tail')"
    and one: "as' = [] \<or> bs' = []"
    and eq0: "zs' @ as' @ bs' = [] @ ?M"
    and ps: "path n_next h1 first' as' None" "path n_next h1 second' bs' None"
    and pre': "merged_prefix h1 result' tail' zs'"
    and sd1: "same_data h h1"
    and fr0: "\<forall>x. x \<notin> set ([] @ as @ bs) \<longrightarrow> h1 x = h x"
    and q0': "zs' \<noteq> [] \<longrightarrow> Q (the (h1 (hd zs')))"
    and ne0: "[] \<noteq> [] \<or> (as \<noteq> [] \<and> bs \<noteq> []) \<longrightarrow> zs' \<noteq> []"
    and left0: "as \<noteq> [] \<or> bs \<noteq> [] \<longrightarrow> as' \<noteq> [] \<or> bs' \<noteq> []"
    by blast
  have eq: "zs' @ as' @ bs' = ?M" using eq0 by simp
  have fr1: "\<forall>x. x \<notin> set (as @ bs) \<longrightarrow> h1 x = h x" using fr0 by simp
  have ne': "zs' \<noteq> []" using ne0 assms(6,7) by simp
  have q': "Q (the (h1 (hd zs')))" using q0' ne' by simp
  have left': "as' \<noteq> [] \<or> bs' \<noteq> []" using left0 assms(6) by simp
  have setM: "set ?M = set (as @ bs)" by (simp add: set_pmerge)
  have dM: "distinct ?M"
    using assms(5) mset_pmerge [of ?c as bs]
    by (metis mset_append mset_eq_imp_distinct_iff)
  have dz: "distinct (zs' @ as' @ bs')" using dM eq by simp
  have hdM: "hd ?M = hd zs'" using eq ne' by (metis hd_append2)
  have res: "result' = Some (hd zs')"
  proof (cases "butlast zs'")
    case Nil
    then have "zs' = [last zs']" using ne' by (metis append_butlast_last_id append_Nil)
    then show ?thesis using pre' ne' Nil by (simp add: merged_prefix_def) (metis list.sel(1))
  next
    case (Cons a list)
    then have "hd zs' = a" using ne' by (metis append_butlast_last_id hd_append2 list.sel(1) list.distinct(1))
    then show ?thesis using pre' ne' Cons by (simp add: merged_prefix_def)
  qed
  show ?thesis
  proof (cases "as' = []")
    case True
    then have f': "first' = None" using ps(1) by simp
    show ?thesis
    proof (cases "bs' = []")
      case True
      then show ?thesis using left' \<open>as' = []\<close> by simp
    next
      case False
      have d: "distinct (zs' @ bs')" using dz True by simp
      from append_rest_correct [OF assms(1,2) pre' ne' ps(2) False d q']
      obtain h2 where
        run2: "append_rest sp h1 tail' second' = Some (h2, Some (last bs'))"
        and p2: "path n_next h2 result' (zs' @ bs') None"
        and sd2: "same_data h1 h2"
        and fr2: "\<forall>x. x \<notin> set (zs' @ bs') \<longrightarrow> h2 x = h1 x"
        and q2: "Q (the (h2 (hd zs')))"
        by blast
      have M: "zs' @ bs' = ?M" using eq True by simp
      have "merge_sorted_lists sp le h first second = Some (h2, result', Some (last bs'))"
        using fs run f' run2 by (simp add: merge_sorted_lists_def)
      moreover have "same_data h h2" using sd1 sd2 by (rule same_data_trans)
      moreover have "\<forall>x. x \<notin> set (as @ bs) \<longrightarrow> h2 x = h x"
        using fr1 fr2 setM M by (metis)
      ultimately show ?thesis using p2 q2 M res hdM by (auto simp del: path.simps)
    qed
  next
    case False
    then have bs': "bs' = []" using one by simp
    then have s': "second' = None" using ps(2) by simp
    have d: "distinct (zs' @ as')" using dz bs' by simp
    from append_rest_correct [OF assms(1,2) pre' ne' ps(1) False d q']
    obtain h2 where
      run2: "append_rest sp h1 tail' first' = Some (h2, Some (last as'))"
      and p2: "path n_next h2 result' (zs' @ as') None"
      and sd2: "same_data h1 h2"
      and fr2: "\<forall>x. x \<notin> set (zs' @ as') \<longrightarrow> h2 x = h1 x"
      and q2: "Q (the (h2 (hd zs')))"
      by blast
    have M: "zs' @ as' = ?M" using eq bs' by simp
    have "merge_sorted_lists sp le h first second = Some (h2, result', Some (last as'))"
      using fs run s' run2 by (simp add: merge_sorted_lists_def)
    moreover have "same_data h h2" using sd1 sd2 by (rule same_data_trans)
    moreover have "\<forall>x. x \<notin> set (as @ bs) \<longrightarrow> h2 x = h x"
      using fr1 fr2 setM M by (metis)
    ultimately show ?thesis using p2 q2 M res hdM by (auto simp del: path.simps)
  qed
qed


lemma pmsort_short: "length xs \<le> 1 \<Longrightarrow> pmsort c xs = xs"
  by (subst pmsort.simps) simp

lemma pmsort_long:
  "\<not> length xs \<le> 1 \<Longrightarrow>
   pmsort c xs = pmerge c (pmsort c (take ((length xs + 1) div 2) xs))
                          (pmsort c (drop ((length xs + 1) div 2) xs))"
  by (subst pmsort.simps) simp

lemma merge_sort_correct:
  assumes "keeps_links sp" and "head_mark sp Q"
    and "path n_next h head as None" and "distinct as"
  shows "\<exists>h' p'. merge_sort sp le h head = Some (h', p')
           \<and> path n_next h' p' (pmsort (by_data le h) as) None
           \<and> same_data h h' \<and> (\<forall>x. x \<notin> set as \<longrightarrow> h' x = h x)
           \<and> (2 \<le> length as \<longrightarrow> Q (the (h' (hd (pmsort (by_data le h) as)))))"
  using assms(3,4)
proof (induction "length as" arbitrary: as h head rule: less_induct)
  case less
  let ?c = "by_data le h"
  show ?case
  proof (cases "length as \<le> 1")
    case True
    have "merge_sort sp le h head = Some (h, head)"
    proof (cases as)
      case Nil
      then have "head = None" using less.prems(1) by simp
      then show ?thesis by (subst merge_sort.simps) simp
    next
      case (Cons a as1)
      then have "as1 = []" using True by simp
      then obtain n where "head = Some a" "h a = Some n" "n_next n = None"
        using less.prems(1) Cons by (auto split: option.splits)
      then show ?thesis by (subst merge_sort.simps) simp
    qed
    then show ?thesis using True less.prems(1) by (simp add: pmsort_short)
  next
    case False
    then obtain a b as2 where as: "as = a # b # as2"
      by (cases as; cases "tl as") auto
    let ?as1 = "b # as2"
    from less.prems(1) as obtain n where hd: "head = Some a" "h a = Some n"
      and rest: "path n_next h (n_next n) ?as1 None"
      by (auto split: option.splits)
    have nx: "n_next n = Some b" using rest by simp
    let ?m = "length ?as1 div 2"
    let ?k = "(length as + 1) div 2"
    have k: "?k = ?m + 1" using as by simp
    have klt: "?k < length as" "0 < ?k" using as by simp_all
    let ?L = "take ?k as" and ?R = "drop ?k as"
    have LR: "as = ?L @ ?R" by simp
    have Lne: "?L \<noteq> []" and Rne: "?R \<noteq> []" using klt as by auto
    have mid: "find_middle h head (n_next n) = Some (Some (as ! ?m))"
      using less.prems(1) rest by (rule find_middle_correct) (simp add: as)
    have "length ?L = ?m + 1" using klt k by simp
    then have "last ?L = ?L ! ?m" using Lne by (simp add: last_conv_nth)
    also have "\<dots> = as ! ?m" using k by simp
    finally have lastL: "last ?L = as ! ?m" .
    from less.prems(1) obtain r where pL: "path n_next h head ?L r"
      and pR: "path n_next h r ?R None"
      by (subst (asm) LR, unfold path_append) blast
    from path_last [OF pL Lne] obtain sn where sn: "h (as ! ?m) = Some sn" "n_next sn = r"
      using lastL by auto
    let ?h1 = "h(as ! ?m \<mapsto> sn\<lparr>n_next := None\<rparr>)"
    have dL: "distinct ?L" and dR: "distinct ?R" using less.prems(2) by simp_all
    have disj: "set ?L \<inter> set ?R = {}"
      using less.prems(2) by (metis LR distinct_append)
    have mL: "as ! ?m \<in> set ?L" using lastL Lne by (metis last_in_set)
    then have mR: "as ! ?m \<notin> set ?R" using disj by auto
    have pL1: "path n_next ?h1 head ?L None"
    proof (rule path_set_last [OF pL dL Lne])
      show "?h1 = h(last ?L \<mapsto> sn\<lparr>n_next := None\<rparr>)" by (simp only: lastL)
      show "n_next (sn\<lparr>n_next := None\<rparr>) = None" by simp
    qed
    have pR1: "path n_next ?h1 r ?R None"
      using pR mR by (simp add: path_frame)
    have sd1: "same_data h ?h1" using sn(1) by (rule same_data_update) simp
    have c1: "by_data le ?h1 = ?c" using sd1 by (rule by_data_same)
    have lenL: "length ?L < length as" using klt by simp
    have lenR: "length ?R < length as" using klt by simp
    from less.hyps [OF lenL pL1 dL] c1 obtain h2 pl where
      run2: "merge_sort sp le ?h1 head = Some (h2, pl)"
      and p2: "path n_next h2 pl (pmsort ?c ?L) None"
      and sd2: "same_data ?h1 h2" and fr2: "\<forall>x. x \<notin> set ?L \<longrightarrow> h2 x = ?h1 x"
      by auto
    have c2: "by_data le h2 = ?c" using by_data_same [OF sd2] c1 by simp
    have "path n_next h2 r ?R None = path n_next ?h1 r ?R None"
      using fr2 disj by (intro path_cong) auto
    then have pR2: "path n_next h2 r ?R None" using pR1 by simp
    from less.hyps [OF lenR pR2 dR] c2 obtain h3 pr where
      run3: "merge_sort sp le h2 r = Some (h3, pr)"
      and p3: "path n_next h3 pr (pmsort ?c ?R) None"
      and sd3: "same_data h2 h3" and fr3: "\<forall>x. x \<notin> set ?R \<longrightarrow> h3 x = h2 x"
      by auto
    have c3: "by_data le h3 = ?c" using by_data_same [OF sd3] c2 by simp
    let ?Ls = "pmsort ?c ?L" and ?Rs = "pmsort ?c ?R"
    have "path n_next h3 pl ?Ls None = path n_next h2 pl ?Ls None"
      using fr3 disj by (intro path_cong) (auto simp: set_pmsort)
    then have pL3: "path n_next h3 pl ?Ls None" using p2 by simp
    have dLR: "distinct (?Ls @ ?Rs)"
      using dL dR disj by (simp add: distinct_pmsort set_pmsort)
    have ne: "?Ls \<noteq> []" "?Rs \<noteq> []"
      using Lne Rne by (metis length_pmsort length_0_conv)+
    from merge_sorted_lists_correct [OF assms(1,2) pL3 p3 dLR ne, of le] c3
    obtain h4 tail' where
      run4: "merge_sorted_lists sp le h3 pl pr = Some (h4, Some (hd (pmerge ?c ?Ls ?Rs)), tail')"
      and p4: "path n_next h4 (Some (hd (pmerge ?c ?Ls ?Rs))) (pmerge ?c ?Ls ?Rs) None"
      and sd4: "same_data h3 h4" and fr4: "\<forall>x. x \<notin> set (?Ls @ ?Rs) \<longrightarrow> h4 x = h3 x"
      and q4: "Q (the (h4 (hd (pmerge ?c ?Ls ?Rs))))"
      by auto
    have sorted_eq: "pmsort ?c as = pmerge ?c ?Ls ?Rs" using False by (rule pmsort_long)
    have run: "merge_sort sp le h head = Some (h4, Some (hd (pmerge ?c ?Ls ?Rs)))"
      using hd nx mid sn run2 run3 run4
      by (subst merge_sort.simps) (simp add: update_node_Some)
    have sd: "same_data h h4"
      using sd1 sd2 sd3 sd4 by (blast intro: same_data_trans)
    have fr: "\<forall>x. x \<notin> set as \<longrightarrow> h4 x = h x"
    proof (intro allI impI)
      fix x assume x: "x \<notin> set as"
      then have "x \<notin> set ?L" "x \<notin> set ?R" by (metis in_set_takeD, metis in_set_dropD)
      then have "h4 x = ?h1 x" using fr2 fr3 fr4 by (simp add: set_pmsort)
      moreover have "x \<noteq> as ! ?m" using mL \<open>x \<notin> set ?L\<close> by auto
      ultimately show "h4 x = h x" by simp
    qed
    show ?thesis
      using run p4 sd fr q4 sorted_eq by (simp del: path.simps)
  qed
qed

lemma repair_prev_correct:
  assumes "path n_next h (Some a) (a # as) None" and "distinct (ps @ a # as)"
    and "path n_prev h (Some a) (a # ps) None"
  shows "\<exists>h'. repair_prev h (Some a) = Some (h', Some (last (a # as)))
           \<and> path n_next h' (Some a) (a # as) None
           \<and> path n_prev h' (Some (last (a # as))) (rev (a # as) @ ps) None
           \<and> same_data h h' \<and> (\<forall>x. x \<notin> set as \<longrightarrow> h' x = h x)"
  using assms
proof (induction as arbitrary: a ps h)
  case Nil
  then obtain n where "h a = Some n" "n_next n = None" by (auto split: option.splits)
  then have "repair_prev h (Some a) = Some (h, Some a)"
    by (subst repair_prev.simps) simp
  then show ?case using Nil by simp
next
  case (Cons b as)
  from Cons.prems(1) obtain n bn where n: "h a = Some n" "n_next n = Some b"
    and bn: "h b = Some bn" and rest: "path n_next h (n_next bn) as None"
    by (auto split: option.splits)
  let ?h1 = "h(b \<mapsto> bn\<lparr>n_prev := Some a\<rparr>)"
  have ab: "a \<noteq> b" "b \<notin> set ps" "b \<notin> set as" "a \<notin> set as" using Cons.prems(2) by auto
  have step: "repair_prev h (Some a) = repair_prev ?h1 (Some b)"
    using n bn by (subst repair_prev.simps) (simp add: update_node_Some)
  have "path n_next ?h1 (Some b) (b # as) None = path n_next h (Some b) (b # as) None"
    using bn by (intro path_cong) auto
  then have p1: "path n_next ?h1 (Some b) (b # as) None" using bn rest by simp
  have "b \<notin> set (a # ps)" using ab by simp
  then have "path n_prev ?h1 (Some a) (a # ps) None = path n_prev h (Some a) (a # ps) None"
    by (rule path_frame)
  then have "path n_prev ?h1 (Some a) (a # ps) None"
    using Cons.prems(3) by (simp del: path.simps)
  then have p2: "path n_prev ?h1 (Some b) (b # a # ps) None" by simp
  have d: "distinct ((a # ps) @ b # as)" using Cons.prems(2) by auto
  from Cons.IH [OF p1 d p2] obtain h' where
    run: "repair_prev ?h1 (Some b) = Some (h', Some (last (b # as)))"
    and pn: "path n_next h' (Some b) (b # as) None"
    and pp: "path n_prev h' (Some (last (b # as))) (rev (b # as) @ a # ps) None"
    and sd: "same_data ?h1 h'" and fr: "\<forall>x. x \<notin> set as \<longrightarrow> h' x = ?h1 x"
    by blast
  have "h' a = Some n" using fr ab n by simp
  then have pn': "path n_next h' (Some a) (a # b # as) None" using pn n(2) by simp
  have sd0: "same_data h ?h1" using bn by (rule same_data_update) simp
  have sd': "same_data h h'" using sd0 sd by (rule same_data_trans)
  have fr': "\<forall>x. x \<notin> set (b # as) \<longrightarrow> h' x = h x" using fr by simp
  show ?case
    using step run pn' pp sd' fr' by (simp del: path.simps)
qed

lemma keeps_links_dll [simp]: "keeps_links dll_set_prev"
  by (simp add: keeps_links_def dll_set_prev_def)

lemma head_mark_dll [simp]: "head_mark dll_set_prev (\<lambda>n. n_prev n = None)"
  by (simp add: head_mark_def dll_set_prev_def)

lemma keeps_links_sll [simp]: "keeps_links sll_set_prev"
  by (simp add: keeps_links_def sll_set_prev_def)

lemma head_mark_sll [simp]: "head_mark sll_set_prev (\<lambda>n. True)"
  by (simp add: head_mark_def)

lemma dll_sort_correct:
  assumes "dll h l as"
  shows "\<exists>h' l'. dll_sort le h l = Some (h', l') \<and> dll h' l' (pmsort (by_data le h) as)
           \<and> same_data h h' \<and> (\<forall>x. x \<notin> set as \<longrightarrow> h' x = h x)"
proof (cases "length as \<le> 1")
  case True
  then show ?thesis using assms by (simp add: dll_sort_def dll_def pmsort_short)
next
  case False
  let ?S = "pmsort (by_data le h) as"
  have wf: "distinct as" "path n_next h (dl_head l) as None" "dl_size l = length as"
    using assms by (simp_all add: dll_def)
  from merge_sort_correct [OF keeps_links_dll head_mark_dll wf(2,1), of le] False
  obtain h1 p' where run1: "merge_sort dll_set_prev le h (dl_head l) = Some (h1, p')"
    and p1: "path n_next h1 p' ?S None" and sd1: "same_data h h1"
    and fr1: "\<forall>x. x \<notin> set as \<longrightarrow> h1 x = h x"
    and q1: "n_prev (the (h1 (hd ?S))) = None"
    by auto
  have len: "length ?S = length as" by (rule length_pmsort)
  then obtain s0 S' where S: "?S = s0 # S'" using False by (cases ?S) auto
  from p1 S obtain n0 where p': "p' = Some s0" and n0: "h1 s0 = Some n0"
    by (auto split: option.splits)
  have pp: "path n_prev h1 (Some s0) (s0 # []) None" using q1 n0 S by simp
  have d: "distinct ([] @ s0 # S')" using wf(1) S by (metis append_Nil distinct_pmsort)
  have pn: "path n_next h1 (Some s0) (s0 # S') None" using p1 p' S by simp
  from repair_prev_correct [OF pn d pp] obtain h2 where
    run2: "repair_prev h1 (Some s0) = Some (h2, Some (last (s0 # S')))"
    and pn2: "path n_next h2 (Some s0) (s0 # S') None"
    and pp2: "path n_prev h2 (Some (last (s0 # S'))) (rev (s0 # S') @ []) None"
    and sd2: "same_data h1 h2" and fr2: "\<forall>x. x \<notin> set S' \<longrightarrow> h2 x = h1 x"
    by blast
  let ?l' = "l\<lparr>dl_head := Some s0, dl_tail := Some (last (s0 # S'))\<rparr>"
  have run: "dll_sort le h l = Some (h2, ?l')"
    using False wf(3) run1 p' run2 by (simp add: dll_sort_def)
  have "dll h2 ?l' ?S"
    using pn2 pp2 d wf(3) len unfolding S by (simp add: dll_def del: path.simps)
  moreover have "same_data h h2" using sd1 sd2 by (rule same_data_trans)
  moreover have "\<forall>x. x \<notin> set as \<longrightarrow> h2 x = h x"
  proof (intro allI impI)
    fix x assume "x \<notin> set as"
    then have "x \<notin> set ?S" by (simp add: set_pmsort)
    then have "x \<notin> set S'" using S by simp
    then show "h2 x = h x" using fr2 fr1 \<open>x \<notin> set as\<close> by simp
  qed
  ultimately show ?thesis using run by blast
qed

lemma sll_sort_correct:
  assumes "sll h l as"
  shows "\<exists>h' l'. sll_sort le h l = Some (h', l') \<and> sll h' l' (pmsort (by_data le h) as)
           \<and> same_data h h' \<and> (\<forall>x. x \<notin> set as \<longrightarrow> h' x = h x)"
proof (cases "length as \<le> 1")
  case True
  then show ?thesis using assms by (simp add: sll_sort_def sll_def pmsort_short)
next
  case False
  let ?S = "pmsort (by_data le h) as"
  have wf: "distinct as" "path n_next h (sl_head l) as None" "sl_size l = length as"
    using assms by (simp_all add: sll_def)
  from merge_sort_correct [OF keeps_links_sll head_mark_sll wf(2,1), of le]
  obtain h1 p' where run1: "merge_sort sll_set_prev le h (sl_head l) = Some (h1, p')"
    and p1: "path n_next h1 p' ?S None" and sd1: "same_data h h1"
    and fr1: "\<forall>x. x \<notin> set as \<longrightarrow> h1 x = h x"
    by auto
  have len: "length ?S = length as" by (rule length_pmsort)
  then have ne: "?S \<noteq> []" using False by auto
  have walk: "walk_to_last h1 p' = Some (Some (last ?S))"
    using p1 ne by (rule walk_to_last_correct)
  let ?l' = "l\<lparr>sl_head := p', sl_tail := Some (last ?S)\<rparr>"
  have run: "sll_sort le h l = Some (h1, ?l')"
    using False wf(3) run1 walk by (simp add: sll_sort_def)
  have "sll h1 ?l' ?S"
    using p1 ne wf(1,3) len by (simp add: sll_def distinct_pmsort del: path.simps)
  then show ?thesis using run sd1 fr1 by blast
qed


text \<open>
  Claim C9: on a well-formed list, singly or doubly linked, \<^verbatim>\<open>reverse()\<close> returns and
  leaves a well-formed list whose nodes, and so whose elements, are the previous ones in
  reverse order, with head and tail exchanged; on a list of at most one node it changes
  nothing; and a second \<^verbatim>\<open>reverse()\<close> restores the original sequence of nodes and
  elements.
\<close>

theorem reverse_correct:
  "(sll h l as \<longrightarrow>
      (\<exists>h' l'. sll_reverse h l = Some (h', l') \<and> sll h' l' (rev as)
         \<and> elems h' (rev as) = rev (elems h as)
         \<and> sl_head l' = sl_tail l \<and> sl_tail l' = sl_head l
         \<and> (length as \<le> 1 \<longrightarrow> h' = h \<and> l' = l)
         \<and> (\<exists>h'' l''. sll_reverse h' l' = Some (h'', l'') \<and> sll h'' l'' as
               \<and> elems h'' as = elems h as)))
   \<and> (dll g m bs \<longrightarrow>
      (\<exists>g' m'. dll_reverse g m = Some (g', m') \<and> dll g' m' (rev bs)
         \<and> elems g' (rev bs) = rev (elems g bs)
         \<and> dl_head m' = dl_tail m \<and> dl_tail m' = dl_head m
         \<and> (length bs \<le> 1 \<longrightarrow> g' = g \<and> m' = m)
         \<and> (\<exists>g'' m''. dll_reverse g' m' = Some (g'', m'') \<and> dll g'' m'' bs
               \<and> elems g'' bs = elems g bs)))"
proof (intro conjI impI)
  assume wf: "sll h l as"
  from sll_reverse_correct [OF wf] obtain h' l' where
    r1: "sll_reverse h l = Some (h', l')" and wf1: "sll h' l' (rev as)"
    and e1: "elems h' (rev as) = rev (elems h as)"
    and ht: "sl_head l' = sl_tail l" "sl_tail l' = sl_head l"
    and short: "length as \<le> 1 \<longrightarrow> h' = h \<and> l' = l"
    by blast
  from sll_reverse_correct [OF wf1] obtain h'' l'' where
    r2: "sll_reverse h' l' = Some (h'', l'')" and wf2: "sll h'' l'' (rev (rev as))"
    and e2: "elems h'' (rev (rev as)) = rev (elems h' (rev as))"
    by blast
  have "sll h'' l'' as" using wf2 by simp
  moreover have "elems h'' as = elems h as" using e2 e1 by simp
  ultimately show "\<exists>h' l'. sll_reverse h l = Some (h', l') \<and> sll h' l' (rev as)
         \<and> elems h' (rev as) = rev (elems h as)
         \<and> sl_head l' = sl_tail l \<and> sl_tail l' = sl_head l
         \<and> (length as \<le> 1 \<longrightarrow> h' = h \<and> l' = l)
         \<and> (\<exists>h'' l''. sll_reverse h' l' = Some (h'', l'') \<and> sll h'' l'' as
               \<and> elems h'' as = elems h as)"
    using r1 wf1 e1 ht short r2 by blast
next
  assume wf: "dll g m bs"
  from dll_reverse_correct [OF wf] obtain g' m' where
    r1: "dll_reverse g m = Some (g', m')" and wf1: "dll g' m' (rev bs)"
    and e1: "elems g' (rev bs) = rev (elems g bs)"
    and ht: "dl_head m' = dl_tail m" "dl_tail m' = dl_head m"
    and short: "length bs \<le> 1 \<longrightarrow> g' = g \<and> m' = m"
    by blast
  from dll_reverse_correct [OF wf1] obtain g'' m'' where
    r2: "dll_reverse g' m' = Some (g'', m'')" and wf2: "dll g'' m'' (rev (rev bs))"
    and e2: "elems g'' (rev (rev bs)) = rev (elems g' (rev bs))"
    by blast
  have "dll g'' m'' bs" using wf2 by simp
  moreover have "elems g'' bs = elems g bs" using e2 e1 by simp
  ultimately show "\<exists>g' m'. dll_reverse g m = Some (g', m') \<and> dll g' m' (rev bs)
         \<and> elems g' (rev bs) = rev (elems g bs)
         \<and> dl_head m' = dl_tail m \<and> dl_tail m' = dl_head m
         \<and> (length bs \<le> 1 \<longrightarrow> g' = g \<and> m' = m)
         \<and> (\<exists>g'' m''. dll_reverse g' m' = Some (g'', m'') \<and> dll g'' m'' bs
               \<and> elems g'' bs = elems g bs)"
    using r1 wf1 e1 ht short r2 by blast
qed

lemma example_sll_wf: "sll example_sll_heap example_sll [1, 2, 3]"
  by code_simp

lemma example_dll_wf: "dll example_dll_heap example_dll [1, 2, 3]"
  by code_simp

lemma example_sll_elems: "elems example_sll_heap [1, 2, 3] = [(2, ''c''), (1, ''a''), (1, ''b'')]"
  by code_simp

lemma example_dll_elems: "elems example_dll_heap [1, 2, 3] = [(2, ''c''), (1, ''a''), (1, ''b'')]"
  by code_simp

theorem reverse_correct_witness:
  "sll example_sll_heap example_sll [1, 2, 3] \<and> dll example_dll_heap example_dll [1, 2, 3]
   \<and> (\<exists>h' l'. sll_reverse example_sll_heap example_sll = Some (h', l') \<and> sll h' l' [3, 2, 1]
         \<and> elems h' [3, 2, 1] = [(1, ''b''), (1, ''a''), (2, ''c'')]
         \<and> sl_head l' = Some 3 \<and> sl_tail l' = Some 1
         \<and> (\<exists>h'' l''. sll_reverse h' l' = Some (h'', l'') \<and> sll h'' l'' [1, 2, 3]
               \<and> elems h'' [1, 2, 3] = [(2, ''c''), (1, ''a''), (1, ''b'')]))
   \<and> (\<exists>g' m'. dll_reverse example_dll_heap example_dll = Some (g', m') \<and> dll g' m' [3, 2, 1]
         \<and> elems g' [3, 2, 1] = [(1, ''b''), (1, ''a''), (2, ''c'')]
         \<and> dl_head m' = Some 3 \<and> dl_tail m' = Some 1
         \<and> (\<exists>g'' m''. dll_reverse g' m' = Some (g'', m'') \<and> dll g'' m'' [1, 2, 3]
               \<and> elems g'' [1, 2, 3] = [(2, ''c''), (1, ''a''), (1, ''b'')]))"
proof -
  note inst = reverse_correct [of example_sll_heap example_sll "[1, 2, 3]"
                example_dll_heap example_dll "[1, 2, 3]"]
  from inst example_sll_wf obtain h' l' h'' l'' where
    s: "sll_reverse example_sll_heap example_sll = Some (h', l')" "sll h' l' (rev [1, 2, 3])"
       "elems h' (rev [1, 2, 3]) = rev (elems example_sll_heap [1, 2, 3])"
       "sl_head l' = sl_tail example_sll" "sl_tail l' = sl_head example_sll"
       "sll_reverse h' l' = Some (h'', l'')" "sll h'' l'' [1, 2, 3]"
       "elems h'' [1, 2, 3] = elems example_sll_heap [1, 2, 3]"
    by blast
  from inst example_dll_wf obtain g' m' g'' m'' where
    d: "dll_reverse example_dll_heap example_dll = Some (g', m')" "dll g' m' (rev [1, 2, 3])"
       "elems g' (rev [1, 2, 3]) = rev (elems example_dll_heap [1, 2, 3])"
       "dl_head m' = dl_tail example_dll" "dl_tail m' = dl_head example_dll"
       "dll_reverse g' m' = Some (g'', m'')" "dll g'' m'' [1, 2, 3]"
       "elems g'' [1, 2, 3] = elems example_dll_heap [1, 2, 3]"
    by blast
  have s2: "sll h' l' [3, 2, 1]" using s(2) by simp
  have s3: "elems h' [3, 2, 1] = [(1, ''b''), (1, ''a''), (2, ''c'')]"
    using s(3) unfolding example_sll_elems by simp
  have s4: "sl_head l' = Some 3" "sl_tail l' = Some 1"
    using s(4,5) by (simp_all add: example_sll_def)
  have s8: "elems h'' [1, 2, 3] = [(2, ''c''), (1, ''a''), (1, ''b'')]"
    using s(8) unfolding example_sll_elems .
  have d2: "dll g' m' [3, 2, 1]" using d(2) by simp
  have d3: "elems g' [3, 2, 1] = [(1, ''b''), (1, ''a''), (2, ''c'')]"
    using d(3) unfolding example_dll_elems by simp
  have d4: "dl_head m' = Some 3" "dl_tail m' = Some 1"
    using d(4,5) by (simp_all add: example_dll_def)
  have d8: "elems g'' [1, 2, 3] = [(2, ''c''), (1, ''a''), (1, ''b'')]"
    using d(8) unfolding example_dll_elems .
  show ?thesis
    using example_sll_wf example_dll_wf s(1) s2 s3 s4 s(6,7) s8 d(1) d2 d3 d4 d(6,7) d8
    by blast
qed

text \<open>
  Claim C4: let \<open>le\<close> (the elements' \<^verbatim>\<open><=\<close>) be total and transitive. On a well-formed
  list, doubly or singly linked, \<^verbatim>\<open>sort()\<close> returns and leaves a well-formed list (for the
  doubly linked list this includes: every \<^verbatim>\<open>prev\<close> mirrors a \<^verbatim>\<open>next\<close>, \<^verbatim>\<open>head_->prev\<close> and
  \<^verbatim>\<open>tail_->next\<close> are null, \<^verbatim>\<open>tail_\<close> is the last node). Its nodes are the previous nodes,
  none lost and none duplicated, holding the elements they held; the elements are in
  non-decreasing order; and the sort is stable: for every value \<open>v\<close>, the nodes whose
  elements are equivalent to \<open>v\<close> come in the order they had before.
\<close>

theorem sort_correct:
  assumes "\<forall>x y. le x y \<or> le y x" and "\<forall>x y z. le x y \<longrightarrow> le y z \<longrightarrow> le x z"
  shows
  "(dll g m bs \<longrightarrow>
      (\<exists>g' m'. dll_sort le g m = Some (g', m')
         \<and> dll g' m' (pmsort (by_data le g) bs)
         \<and> sorted_wrt le (elems g' (pmsort (by_data le g) bs))
         \<and> mset (pmsort (by_data le g) bs) = mset bs
         \<and> mset (elems g' (pmsort (by_data le g) bs)) = mset (elems g bs)
         \<and> same_data g g'
         \<and> (\<forall>v. filter (\<lambda>a. le (n_data (the (g a))) v \<and> le v (n_data (the (g a))))
                    (pmsort (by_data le g) bs)
                = filter (\<lambda>a. le (n_data (the (g a))) v \<and> le v (n_data (the (g a)))) bs)))
   \<and> (sll h l as \<longrightarrow>
      (\<exists>h' l'. sll_sort le h l = Some (h', l')
         \<and> sll h' l' (pmsort (by_data le h) as)
         \<and> sorted_wrt le (elems h' (pmsort (by_data le h) as))
         \<and> mset (pmsort (by_data le h) as) = mset as
         \<and> mset (elems h' (pmsort (by_data le h) as)) = mset (elems h as)
         \<and> same_data h h'
         \<and> (\<forall>v. filter (\<lambda>a. le (n_data (the (h a))) v \<and> le v (n_data (the (h a))))
                    (pmsort (by_data le h) as)
                = filter (\<lambda>a. le (n_data (the (h a))) v \<and> le v (n_data (the (h a)))) as)))"
proof -
  have pure: "sorted_wrt le (elems k (pmsort (by_data le k) xs))
      \<and> mset (pmsort (by_data le k) xs) = mset xs
      \<and> mset (elems k (pmsort (by_data le k) xs)) = mset (elems k xs)
      \<and> (\<forall>v. filter (\<lambda>a. le (n_data (the (k a))) v \<and> le v (n_data (the (k a))))
                    (pmsort (by_data le k) xs)
                = filter (\<lambda>a. le (n_data (the (k a))) v \<and> le v (n_data (the (k a)))) xs)"
    for k :: "addr \<rightharpoonup> ('a, 'm) SNode_scheme" and xs
  proof -
    let ?c = "by_data le k"
    have tot: "\<And>x y. ?c x y \<or> ?c y x" using assms(1) by (simp add: by_data_def)
    have trans: "\<And>x y z. ?c x y \<Longrightarrow> ?c y z \<Longrightarrow> ?c x z"
      using assms(2) unfolding by_data_def by blast
    have ceq: "?c = (\<lambda>x y. le (n_data (the (k x))) (n_data (the (k y))))"
      by (simp add: by_data_def fun_eq_iff)
    have "sorted_wrt ?c (pmsort ?c xs)" using tot trans by (rule sorted_pmsort)
    then have "sorted_wrt (\<lambda>x y. le (n_data (the (k x))) (n_data (the (k y)))) (pmsort ?c xs)"
      by (subst (asm) (1) ceq)
    then have s: "sorted_wrt le (elems k (pmsort ?c xs))"
      by (simp only: elems_def sorted_wrt_map)
    have m: "mset (pmsort ?c xs) = mset xs" by (rule mset_pmsort)
    have "mset (elems k (pmsort ?c xs)) = image_mset (\<lambda>a. n_data (the (k a))) (mset (pmsort ?c xs))"
      by (simp add: elems_def)
    then have e: "mset (elems k (pmsort ?c xs)) = mset (elems k xs)"
      using m by (simp add: elems_def)
    have f: "filter (\<lambda>a. le (n_data (the (k a))) v \<and> le v (n_data (the (k a)))) (pmsort ?c xs)
        = filter (\<lambda>a. le (n_data (the (k a))) v \<and> le v (n_data (the (k a)))) xs" for v
    proof (rule filter_pmsort [OF tot trans])
      fix x y
      assume "le (n_data (the (k x))) v \<and> le v (n_data (the (k x)))"
        and "le (n_data (the (k y))) v \<and> le v (n_data (the (k y)))"
      then show "?c x y" using assms(2) unfolding by_data_def by blast
    qed
    show ?thesis using s m e f by blast
  qed
  show ?thesis
  proof (intro conjI impI)
    assume "dll g m bs"
    from dll_sort_correct [OF this, of le] obtain g' m' where
      r: "dll_sort le g m = Some (g', m')" "dll g' m' (pmsort (by_data le g) bs)" "same_data g g'"
      by blast
    have "elems g' (pmsort (by_data le g) bs) = elems g (pmsort (by_data le g) bs)"
      using r(3) by (rule same_data_elems)
    then show "\<exists>g' m'. dll_sort le g m = Some (g', m')
         \<and> dll g' m' (pmsort (by_data le g) bs)
         \<and> sorted_wrt le (elems g' (pmsort (by_data le g) bs))
         \<and> mset (pmsort (by_data le g) bs) = mset bs
         \<and> mset (elems g' (pmsort (by_data le g) bs)) = mset (elems g bs)
         \<and> same_data g g'
         \<and> (\<forall>v. filter (\<lambda>a. le (n_data (the (g a))) v \<and> le v (n_data (the (g a))))
                    (pmsort (by_data le g) bs)
                = filter (\<lambda>a. le (n_data (the (g a))) v \<and> le v (n_data (the (g a)))) bs)"
      using r pure [of g bs] by (intro exI [of _ g'] exI [of _ m']) simp
  next
    assume "sll h l as"
    from sll_sort_correct [OF this, of le] obtain h' l' where
      r: "sll_sort le h l = Some (h', l')" "sll h' l' (pmsort (by_data le h) as)" "same_data h h'"
      by blast
    have "elems h' (pmsort (by_data le h) as) = elems h (pmsort (by_data le h) as)"
      using r(3) by (rule same_data_elems)
    then show "\<exists>h' l'. sll_sort le h l = Some (h', l')
         \<and> sll h' l' (pmsort (by_data le h) as)
         \<and> sorted_wrt le (elems h' (pmsort (by_data le h) as))
         \<and> mset (pmsort (by_data le h) as) = mset as
         \<and> mset (elems h' (pmsort (by_data le h) as)) = mset (elems h as)
         \<and> same_data h h'
         \<and> (\<forall>v. filter (\<lambda>a. le (n_data (the (h a))) v \<and> le v (n_data (the (h a))))
                    (pmsort (by_data le h) as)
                = filter (\<lambda>a. le (n_data (the (h a))) v \<and> le v (n_data (the (h a)))) as)"
      using r pure [of h as] by (intro exI [of _ h'] exI [of _ l']) simp
  qed
qed

lemma example_dll_sorted: "pmsort (by_data le_fst example_dll_heap) [1, 2, 3] = [2, 3, 1]"
  by code_simp

lemma example_sll_sorted: "pmsort (by_data le_fst example_sll_heap) [1, 2, 3] = [2, 3, 1]"
  by code_simp

lemma example_dll_elems_sorted:
  "elems example_dll_heap [2, 3, 1] = [(1, ''a''), (1, ''b''), (2, ''c'')]"
  by code_simp

lemma example_sll_elems_sorted:
  "elems example_sll_heap [2, 3, 1] = [(1, ''a''), (1, ''b''), (2, ''c'')]"
  by code_simp

theorem sort_correct_witness:
  "dll example_dll_heap example_dll [1, 2, 3] \<and> sll example_sll_heap example_sll [1, 2, 3]
   \<and> (\<exists>g' m'. dll_sort le_fst example_dll_heap example_dll = Some (g', m')
         \<and> dll g' m' [2, 3, 1]
         \<and> elems g' [2, 3, 1] = [(1, ''a''), (1, ''b''), (2, ''c'')])
   \<and> (\<exists>h' l'. sll_sort le_fst example_sll_heap example_sll = Some (h', l')
         \<and> sll h' l' [2, 3, 1]
         \<and> elems h' [2, 3, 1] = [(1, ''a''), (1, ''b''), (2, ''c'')])"
proof -
  have tot: "\<forall>x y. le_fst x y \<or> le_fst y x" by (auto simp: le_fst_def)
  have trans: "\<forall>x y z. le_fst x y \<longrightarrow> le_fst y z \<longrightarrow> le_fst x z" by (auto simp: le_fst_def)
  note inst = sort_correct [of le_fst example_dll_heap example_dll "[1, 2, 3]"
                  example_sll_heap example_sll "[1, 2, 3]", OF tot trans]
  from inst [THEN conjunct1, THEN mp, OF example_dll_wf] obtain g' m' where
    d: "dll_sort le_fst example_dll_heap example_dll = Some (g', m')"
       "dll g' m' (pmsort (by_data le_fst example_dll_heap) [1, 2, 3])"
       "same_data example_dll_heap g'"
    by (elim exE conjE) (rule that, assumption+)
  from inst [THEN conjunct2, THEN mp, OF example_sll_wf] obtain h' l' where
    s: "sll_sort le_fst example_sll_heap example_sll = Some (h', l')"
       "sll h' l' (pmsort (by_data le_fst example_sll_heap) [1, 2, 3])"
       "same_data example_sll_heap h'"
    by (elim exE conjE) (rule that, assumption+)
  have "elems g' [2, 3, 1] = [(1, ''a''), (1, ''b''), (2, ''c'')]"
    using same_data_elems [OF d(3)] example_dll_elems_sorted by simp
  moreover have "elems h' [2, 3, 1] = [(1, ''a''), (1, ''b''), (2, ''c'')]"
    using same_data_elems [OF s(3)] example_sll_elems_sorted by simp
  ultimately show ?thesis
    using example_dll_wf example_sll_wf d(1,2) s(1,2)
    unfolding example_dll_sorted example_sll_sorted by blast
qed

lemma splice_range_to_end: "range_count splice_heap (Some 10) None 0 = Some 3"
  by (subst range_count.simps, simp add: splice_heap_def)+

lemma splice_range_inner: "range_count splice_heap (Some 10) (Some 30) 0 = Some 2"
  by (subst range_count.simps, simp add: splice_heap_def)+

text \<open>
  Claim C3 fails when \<^verbatim>\<open>last\<close> is \<^verbatim>\<open>other.end()\<close>. With \<open>this\<close> empty and \<open>other\<close> holding
  5, 6, 7, the call \<^verbatim>\<open>splice(end(), other, other.begin(), other.end())\<close> counts the three
  nodes and then evaluates \<^verbatim>\<open>last.current_->prev\<close> on the null pointer of \<^verbatim>\<open>end()\<close>: the
  call has no defined result. (With \<^verbatim>\<open>last\<close> at the third node the same call moves the
  first two nodes and leaves both lists well formed.)
\<close>

theorem dll_splice_to_end_undefined:
  "dll splice_heap empty_dll [] \<and> dll splice_heap splice_source [10, 20, 30]
   \<and> range_count splice_heap (Some 10) None 0 = Some 3
   \<and> deref splice_heap None = None
   \<and> dll_splice splice_heap empty_dll splice_source False None (Some 10) None = None
   \<and> (case dll_splice splice_heap empty_dll splice_source False None (Some 10) (Some 30) of
         None \<Rightarrow> False
       | Some (h', this', other') \<Rightarrow> dll h' this' [10, 20] \<and> dll h' other' [30])"
proof -
  have a: "dll splice_heap empty_dll []" by (simp add: dll_def empty_dll_def)
  have b: "dll splice_heap splice_source [10, 20, 30]"
    by (simp add: dll_def splice_source_def splice_heap_def)
  have c: "dll_splice splice_heap empty_dll splice_source False None (Some 10) None = None"
    by (simp add: dll_splice_def splice_range_to_end)
  have d: "case dll_splice splice_heap empty_dll splice_source False None (Some 10) (Some 30) of
         None \<Rightarrow> False
       | Some (h', this', other') \<Rightarrow> dll h' this' [10, 20] \<and> dll h' other' [30]"
    unfolding dll_splice_def splice_range_inner
    by (simp add: splice_heap_def update_node_def empty_dll_def splice_source_def dll_def Let_def)
  show ?thesis using a b c d splice_range_to_end by simp
qed


end
